theory Spec2Isabelle
  imports Complex_Main
begin

section \<open>Data model (types.ts)\<close>

text \<open>
  JavaScript numbers are modelled as exact reals, strings as sequences of 8-bit code units
  (the Latin-1 range of the UTF-16 code units of a JavaScript string), a \<open>Date\<close> as the
  number of milliseconds since the epoch.
\<close>

record StructuredAddress =
  building :: "string option"
  street :: "string option"
  area :: "string option"
  city :: "string option"
  state :: "string option"
  pincode :: "string option"
  country :: "string option"

datatype Source = Cache | Api

text \<open>
  The fields of \<open>GeocodingResult\<close> carry the prefix \<open>res_\<close> where the source uses the
  same field name as in \<open>CacheEntry\<close>.
\<close>

record GeocodingResult =
  res_lat :: real
  res_lng :: real
  res_displayName :: string
  res_structured :: StructuredAddress
  source :: Source

record CacheEntry =
  address :: string
  normalized :: string
  lat :: real
  lng :: real
  structured :: StructuredAddress
  displayName :: string
  embedding :: "real list"
  timestamp :: nat

section \<open>utils/distance.ts\<close>

subsection \<open>haversineDistance\<close>

text \<open>\<open>Math.atan2 y x\<close> on reals.\<close>

definition atan2 :: "real \<Rightarrow> real \<Rightarrow> real" where
  "atan2 y x =
     (if 0 < x then arctan (y / x)
      else if x < 0 then (if 0 \<le> y then arctan (y / x) + pi else arctan (y / x) - pi)
      else if 0 < y then pi / 2
      else if y < 0 then - (pi / 2)
      else 0)"

definition haversineDistance :: "real \<Rightarrow> real \<Rightarrow> real \<Rightarrow> real \<Rightarrow> real" where
  "haversineDistance lat1 lng1 lat2 lng2 =
     (let R = 6371000;
          phi1 = (lat1 * pi) / 180;
          phi2 = (lat2 * pi) / 180;
          dphi = ((lat2 - lat1) * pi) / 180;
          dlambda = ((lng2 - lng1) * pi) / 180;
          a = sin (dphi / 2) * sin (dphi / 2)
              + cos phi1 * cos phi2 * sin (dlambda / 2) * sin (dlambda / 2);
          c = 2 * atan2 (sqrt a) (sqrt (1 - a))
      in R * c)"

subsection \<open>cosineSimilarity\<close>

text \<open>
  The body of the \<open>for\<close> loop, on the accumulators \<open>(dotProduct, mag1, mag2)\<close>, and the
  loop over the indices \<open>0 .. vec1.length - 1\<close>.
\<close>

definition cosine_body ::
  "real list \<Rightarrow> real list \<Rightarrow> nat \<Rightarrow> real \<times> real \<times> real \<Rightarrow> real \<times> real \<times> real" where
  "cosine_body vec1 vec2 i acc =
     (case acc of (dotProduct, mag1, mag2) \<Rightarrow>
        (dotProduct + vec1 ! i * vec2 ! i,
         mag1 + vec1 ! i * vec1 ! i,
         mag2 + vec2 ! i * vec2 ! i))"

definition cosine_loop :: "real list \<Rightarrow> real list \<Rightarrow> real \<times> real \<times> real" where
  "cosine_loop vec1 vec2 = fold (cosine_body vec1 vec2) [0 ..< length vec1] (0, 0, 0)"

definition cosineSimilarity :: "real list \<Rightarrow> real list \<Rightarrow> real" where
  "cosineSimilarity vec1 vec2 =
     (if length vec1 \<noteq> length vec2 then 0
      else (case cosine_loop vec1 vec2 of (dotProduct, m1, m2) \<Rightarrow>
        (let mag1 = sqrt m1; mag2 = sqrt m2
         in if mag1 = 0 \<or> mag2 = 0 then 0 else dotProduct / (mag1 * mag2))))"


text \<open>
  The same quantities in the words of the specification: the dot product and the magnitudes
  of the two vectors.
\<close>

definition dot :: "real list \<Rightarrow> real list \<Rightarrow> real" where
  "dot a b = sum_list (map2 (*) a b)"

definition magnitude :: "real list \<Rightarrow> real" where
  "magnitude a = sqrt (sum_list (map (\<lambda>x. x * x) a))"

subsection \<open>normalizeAddress\<close>

text \<open>
  The character classes of the regular expressions, on code units below 256:
  \<open>\w\<close> is \<open>[A-Za-z0-9_]\<close>; \<open>\s\<close> (and the set removed by \<open>trim\<close>) is tab, line feed,
  vertical tab, form feed, carriage return, space and the no-break space.
\<close>

definition is_word :: "char \<Rightarrow> bool" where
  "is_word c =
     (let n = (of_char c :: nat)
      in (97 \<le> n \<and> n \<le> 122) \<or> (65 \<le> n \<and> n \<le> 90) \<or> (48 \<le> n \<and> n \<le> 57) \<or> n = 95)"

definition is_space :: "char \<Rightarrow> bool" where
  "is_space c =
     (let n = (of_char c :: nat) in (9 \<le> n \<and> n \<le> 13) \<or> n = 32 \<or> n = 160)"

definition toLowerCase_char :: "char \<Rightarrow> char" where
  "toLowerCase_char c =
     (let n = (of_char c :: nat)
      in if (65 \<le> n \<and> n \<le> 90) \<or> (192 \<le> n \<and> n \<le> 214) \<or> (216 \<le> n \<and> n \<le> 222)
         then char_of (n + 32) else c)"

definition toLowerCase :: "string \<Rightarrow> string" where
  "toLowerCase s = map toLowerCase_char s"

definition trim :: "string \<Rightarrow> string" where
  "trim s = rev (dropWhile is_space (rev (dropWhile is_space s)))"

text \<open>\<open>.replace(/\s+/g, ' ')\<close>: every maximal run of whitespace becomes one space.\<close>

function collapse_ws :: "string \<Rightarrow> string" where
  "collapse_ws [] = []"
| "collapse_ws (c # cs) =
     (if is_space c then CHR '' '' # collapse_ws (dropWhile is_space cs)
      else c # collapse_ws cs)"
  by pat_completeness auto
termination
  by (relation "measure length") (auto simp: less_Suc_eq_le length_dropWhile_le)

text \<open>\<open>.replace(/[^\w\s]/g, '')\<close>.\<close>

definition strip_nonword :: "string \<Rightarrow> string" where
  "strip_nonword s = filter (\<lambda>c. is_word c \<or> is_space c) s"

text \<open>
  \<open>\b\<close> holds between two positions when exactly one of the characters before and after
  is a word character; beyond either end of the input there is no word character.
  \<open>prev_word\<close> says whether the character before the current position is a word character.
\<close>

definition word_boundary :: "bool \<Rightarrow> string \<Rightarrow> bool" where
  "word_boundary prev_word s = (prev_word \<noteq> (case s of [] \<Rightarrow> False | c # _ \<Rightarrow> is_word c))"

definition matches_at :: "string \<Rightarrow> bool \<Rightarrow> string \<Rightarrow> bool" where
  "matches_at pat prev_word s =
     (word_boundary prev_word s \<and> take (length pat) s = pat
      \<and> word_boundary (is_word (last pat)) (drop (length pat) s))"

text \<open>
  \<open>.replace(/\bpat\b/g, rep)\<close> for a non-empty literal \<open>pat\<close>: the input is scanned from left
  to right; a match is replaced and the scan goes on after it.
\<close>

function replace_word :: "string \<Rightarrow> string \<Rightarrow> bool \<Rightarrow> string \<Rightarrow> string" where
  "replace_word pat rep prev_word [] = []"
| "replace_word pat rep prev_word (c # cs) =
     (if matches_at pat prev_word (c # cs)
      then rep @ replace_word pat rep (is_word (last pat)) (drop (length pat - 1) cs)
      else c # replace_word pat rep (is_word c) cs)"
  by pat_completeness auto
termination
  by (relation "measure (\<lambda>(pat, rep, prev_word, s). length s)") auto

definition normalizeAddress :: "string \<Rightarrow> string" where
  "normalizeAddress addr =
     replace_word ''maha'' ''maharashtra'' False
       (replace_word ''mh'' ''maharashtra'' False
         (replace_word ''ave'' ''avenue'' False
           (replace_word ''st'' ''street'' False
             (replace_word ''rd'' ''road'' False
               (strip_nonword (collapse_ws (trim (toLowerCase addr))))))))"


section \<open>The keyed timed store (node-cache)\<close>

text \<open>
  Modelled from the spec: the keyed timed store is the \<open>node-cache\<close> package, which is not
  part of the sources; this section models the store and those of its operations that the
  service calls (\<open>set\<close>, \<open>del\<close>, \<open>keys\<close>, \<open>getStats\<close>, \<open>flushAll\<close>), together with the
  keyed lookup \<open>get\<close> and the periodic expiry check. The store holds, per key, a value with
  its expiry time (\<open>0\<close> means no expiry) and the cumulative hit and miss counters, which
  only a keyed lookup increments. The keys of the underlying object are kept in insertion
  order; setting an existing key overwrites its record.
\<close>

record NodeCache =
  data :: "(string \<times> nat \<times> CacheEntry) list"
  stats_hits :: nat
  stats_misses :: nat
  stdTTL :: nat

fun obj_set :: "string \<Rightarrow> 'v \<Rightarrow> (string \<times> 'v) list \<Rightarrow> (string \<times> 'v) list" where
  "obj_set k v [] = [(k, v)]"
| "obj_set k v ((k', v') # kvs) =
     (if k' = k then (k, v) # kvs else (k', v') # obj_set k v kvs)"

definition obj_delete :: "string \<Rightarrow> (string \<times> 'v) list \<Rightarrow> (string \<times> 'v) list" where
  "obj_delete k kvs = filter (\<lambda>kv. fst kv \<noteq> k) kvs"

definition nc_new :: "nat \<Rightarrow> NodeCache" where
  "nc_new ttl = \<lparr>data = [], stats_hits = 0, stats_misses = 0, stdTTL = ttl\<rparr>"

definition nc_set :: "NodeCache \<Rightarrow> string \<Rightarrow> CacheEntry \<Rightarrow> nat \<Rightarrow> NodeCache" where
  "nc_set nc key val now_ms =
     (let livetime = (if stdTTL nc = 0 then 0 else now_ms + stdTTL nc * 1000)
      in nc\<lparr>data := obj_set key (livetime, val) (data nc)\<rparr>)"

definition nc_del :: "NodeCache \<Rightarrow> string \<Rightarrow> NodeCache" where
  "nc_del nc key = nc\<lparr>data := obj_delete key (data nc)\<rparr>"

definition nc_keys :: "NodeCache \<Rightarrow> string list" where
  "nc_keys nc = map fst (data nc)"

definition nc_flushAll :: "NodeCache \<Rightarrow> NodeCache" where
  "nc_flushAll nc = nc\<lparr>data := [], stats_hits := 0, stats_misses := 0\<rparr>"

definition expired :: "nat \<Rightarrow> nat \<Rightarrow> bool" where
  "expired t now_ms = (t \<noteq> 0 \<and> t < now_ms)"

definition nc_get :: "NodeCache \<Rightarrow> string \<Rightarrow> nat \<Rightarrow> CacheEntry option \<times> NodeCache" where
  "nc_get nc key now_ms =
     (case map_of (data nc) key of
        None \<Rightarrow> (None, nc\<lparr>stats_misses := stats_misses nc + 1\<rparr>)
      | Some (t, val) \<Rightarrow>
          if expired t now_ms
          then (None, (nc_del nc key)\<lparr>stats_misses := stats_misses nc + 1\<rparr>)
          else (Some val, nc\<lparr>stats_hits := stats_hits nc + 1\<rparr>))"

text \<open>The periodic check of the package, which deletes every expired key.\<close>

definition nc_checkData :: "NodeCache \<Rightarrow> nat \<Rightarrow> NodeCache" where
  "nc_checkData nc now_ms =
     nc\<lparr>data := filter (\<lambda>kv. \<not> expired (fst (snd kv)) now_ms) (data nc)\<rparr>"

section \<open>services/semanticCacheService.ts\<close>

text \<open>
  The three module constants are read from the environment; \<open>default_config\<close> holds the
  defaults of the source.
\<close>

record Config =
  CACHE_TTL :: nat
  SIMILARITY_THRESHOLD :: real
  DISTANCE_THRESHOLD :: int

definition default_config :: Config where
  "default_config =
     \<lparr>CACHE_TTL = 86400, SIMILARITY_THRESHOLD = 85 / 100, DISTANCE_THRESHOLD = 500\<rparr>"

text \<open>
  What one call sees of the outside world: the answers of the embedding service and of the
  geocoding service (\<open>None\<close> for \<open>null\<close>) and the clock in milliseconds.
\<close>

record Externals =
  generateEmbedding :: "string \<Rightarrow> real list"
  geocode :: "string \<Rightarrow> GeocodingResult option"
  reverseGeocode :: "real \<Rightarrow> real \<Rightarrow> GeocodingResult option"
  now :: nat

record SemanticCacheService =
  cache :: NodeCache
  cacheEntries :: "CacheEntry list"

definition constructor :: "Config \<Rightarrow> SemanticCacheService" where
  "constructor cfg = \<lparr>cache = nc_new (CACHE_TTL cfg), cacheEntries = []\<rparr>"

subsection \<open>findSimilar\<close>

text \<open>The body of the loop, on the pair \<open>(bestMatch, bestScore)\<close>.\<close>

definition findSimilar_body ::
  "Config \<Rightarrow> real list \<Rightarrow> CacheEntry \<Rightarrow> CacheEntry option \<times> real \<Rightarrow> CacheEntry option \<times> real"
  where
  "findSimilar_body cfg queryEmbedding entry acc =
     (case acc of (bestMatch, bestScore) \<Rightarrow>
        (let similarity = cosineSimilarity queryEmbedding (embedding entry)
         in if similarity > SIMILARITY_THRESHOLD cfg then
              (case bestMatch of
                 Some best \<Rightarrow>
                   (let distance = haversineDistance (lat entry) (lng entry) (lat best) (lng best)
                    in if distance < of_int (DISTANCE_THRESHOLD cfg) \<and> similarity > bestScore
                       then (Some entry, similarity)
                       else (bestMatch, bestScore))
               | None \<Rightarrow> (Some entry, similarity))
            else (bestMatch, bestScore)))"

definition findSimilar ::
  "Config \<Rightarrow> CacheEntry list \<Rightarrow> string \<Rightarrow> real list \<Rightarrow> CacheEntry option" where
  "findSimilar cfg entries normalizedAddress queryEmbedding =
     fst (fold (findSimilar_body cfg queryEmbedding) entries (None, 0))"

text \<open>
  The selection policy in the words of the specification: the first candidate becomes the
  provisional best; a later candidate replaces it only if its similarity exceeds that of
  the provisional best and it lies within the distance threshold of the provisional best.
\<close>

definition is_candidate :: "Config \<Rightarrow> real list \<Rightarrow> CacheEntry \<Rightarrow> bool" where
  "is_candidate cfg q e = (cosineSimilarity q (embedding e) > SIMILARITY_THRESHOLD cfg)"

fun select_best :: "Config \<Rightarrow> real list \<Rightarrow> CacheEntry option \<Rightarrow> CacheEntry list \<Rightarrow> CacheEntry option"
  where
  "select_best cfg q best [] = best"
| "select_best cfg q None (e # es) =
     (if is_candidate cfg q e then select_best cfg q (Some e) es
      else select_best cfg q None es)"
| "select_best cfg q (Some b) (e # es) =
     (if is_candidate cfg q e
         \<and> cosineSimilarity q (embedding e) > cosineSimilarity q (embedding b)
         \<and> haversineDistance (lat e) (lng e) (lat b) (lng b) < of_int (DISTANCE_THRESHOLD cfg)
      then select_best cfg q (Some e) es
      else select_best cfg q (Some b) es)"

subsection \<open>findNearby\<close>

fun findNearby :: "CacheEntry list \<Rightarrow> real \<Rightarrow> real \<Rightarrow> real \<Rightarrow> CacheEntry option" where
  "findNearby [] lat0 lng0 radiusMeters = None"
| "findNearby (entry # rest) lat0 lng0 radiusMeters =
     (let distance = haversineDistance lat0 lng0 (lat entry) (lng entry)
      in if distance < radiusMeters then Some entry
         else findNearby rest lat0 lng0 radiusMeters)"

subsection \<open>store\<close>

definition make_entry ::
  "Externals \<Rightarrow> string \<Rightarrow> string \<Rightarrow> GeocodingResult \<Rightarrow> real list \<Rightarrow> CacheEntry" where
  "make_entry ext addr nrm result emb =
     \<lparr>address = addr, normalized = nrm, lat = res_lat result, lng = res_lng result,
      structured = res_structured result, displayName = res_displayName result,
      embedding = emb, timestamp = now ext\<rparr>"

definition cache_key :: "string \<Rightarrow> string" where
  "cache_key nrm = ''geo:'' @ nrm"

definition store ::
  "Externals \<Rightarrow> string \<Rightarrow> string \<Rightarrow> GeocodingResult \<Rightarrow> real list
     \<Rightarrow> SemanticCacheService \<Rightarrow> SemanticCacheService" where
  "store ext addr nrm result emb s =
     (let cacheEntry = make_entry ext addr nrm result emb;
          key = cache_key nrm;
          cache1 = nc_set (cache s) key cacheEntry (now ext);
          entries1 = cacheEntries s @ [cacheEntry]
      in if length entries1 > 1000 then
           (case entries1 of
              [] \<Rightarrow> \<lparr>cache = cache1, cacheEntries = []\<rparr>
            | removed # rest \<Rightarrow>
                \<lparr>cache = nc_del cache1 (cache_key (normalized removed)), cacheEntries = rest\<rparr>)
         else \<lparr>cache = cache1, cacheEntries = entries1\<rparr>)"

subsection \<open>The public operations\<close>

definition hit_result :: "CacheEntry \<Rightarrow> GeocodingResult" where
  "hit_result e =
     \<lparr>res_lat = lat e, res_lng = lng e, res_displayName = displayName e,
      res_structured = structured e, source = Cache\<rparr>"

definition geocodeWithCache ::
  "Config \<Rightarrow> Externals \<Rightarrow> string \<Rightarrow> SemanticCacheService
     \<Rightarrow> GeocodingResult option \<times> SemanticCacheService" where
  "geocodeWithCache cfg ext addr s =
     (let nrm = normalizeAddress addr;
          queryEmbedding = generateEmbedding ext nrm;
          cachedResult = findSimilar cfg (cacheEntries s) nrm queryEmbedding
      in case cachedResult of
           Some c \<Rightarrow> (Some (hit_result c), s)
         | None \<Rightarrow>
             (let result = geocode ext addr
              in case result of
                   Some r \<Rightarrow> (result, store ext addr nrm r queryEmbedding s)
                 | None \<Rightarrow> (result, s)))"

definition reverseGeocodeWithCache ::
  "Externals \<Rightarrow> real \<Rightarrow> real \<Rightarrow> SemanticCacheService
     \<Rightarrow> GeocodingResult option \<times> SemanticCacheService" where
  "reverseGeocodeWithCache ext lat0 lng0 s =
     (let nearby = findNearby (cacheEntries s) lat0 lng0 100
      in case nearby of
           Some n \<Rightarrow> (Some (hit_result n), s)
         | None \<Rightarrow>
             (let result = reverseGeocode ext lat0 lng0
              in case result of
                   Some r \<Rightarrow>
                     (let nrm = normalizeAddress (res_displayName r);
                          emb = generateEmbedding ext nrm
                      in (result, store ext (res_displayName r) nrm r emb s))
                 | None \<Rightarrow> (result, s)))"

record Stats =
  entries :: nat
  keys :: nat
  hits :: nat
  misses :: nat

definition getStats :: "SemanticCacheService \<Rightarrow> Stats" where
  "getStats s =
     \<lparr>entries = length (cacheEntries s), keys = length (nc_keys (cache s)),
      hits = stats_hits (cache s), misses = stats_misses (cache s)\<rparr>"

definition clear :: "SemanticCacheService \<Rightarrow> SemanticCacheService" where
  "clear s = \<lparr>cache = nc_flushAll (cache s), cacheEntries = []\<rparr>"

subsection \<open>Runs of the service\<close>

text \<open>
  A sequence of insertions, each with its own arguments and view of the outside world, and
  a sequence of public operations interleaved with the periodic expiry check of the keyed
  store.
\<close>

record StoreRequest =
  rq_ext :: Externals
  rq_address :: string
  rq_normalized :: string
  rq_result :: GeocodingResult
  rq_embedding :: "real list"

definition entry_of :: "StoreRequest \<Rightarrow> CacheEntry" where
  "entry_of r = make_entry (rq_ext r) (rq_address r) (rq_normalized r) (rq_result r) (rq_embedding r)"

definition store_request :: "StoreRequest \<Rightarrow> SemanticCacheService \<Rightarrow> SemanticCacheService" where
  "store_request r s =
     store (rq_ext r) (rq_address r) (rq_normalized r) (rq_result r) (rq_embedding r) s"

definition store_all :: "StoreRequest list \<Rightarrow> SemanticCacheService \<Rightarrow> SemanticCacheService" where
  "store_all rs s = fold store_request rs s"

datatype Operation =
    GeocodeWithCache Externals string
  | ReverseGeocodeWithCache Externals real real
  | GetStats
  | Clear
  | CheckData nat

fun apply_operation :: "Config \<Rightarrow> Operation \<Rightarrow> SemanticCacheService \<Rightarrow> SemanticCacheService"
  where
  "apply_operation cfg (GeocodeWithCache ext addr) s = snd (geocodeWithCache cfg ext addr s)"
| "apply_operation cfg (ReverseGeocodeWithCache ext lat0 lng0) s =
     snd (reverseGeocodeWithCache ext lat0 lng0 s)"
| "apply_operation cfg GetStats s = s"
| "apply_operation cfg Clear s = clear s"
| "apply_operation cfg (CheckData t) s = s\<lparr>cache := nc_checkData (cache s) t\<rparr>"

definition run :: "Config \<Rightarrow> Operation list \<Rightarrow> SemanticCacheService" where
  "run cfg ops = fold (apply_operation cfg) ops (constructor cfg)"

section \<open>Auxiliary notions for the statements\<close>

text \<open>An entry with the given key, position, embedding and timestamp, for concrete inputs.\<close>

definition sample_entry :: "string \<Rightarrow> real \<Rightarrow> real \<Rightarrow> real list \<Rightarrow> nat \<Rightarrow> CacheEntry" where
  "sample_entry nrm la lo emb ts =
     \<lparr>address = nrm, normalized = nrm, lat = la, lng = lo,
      structured = \<lparr>building = None, street = None, area = None, city = None, state = None,
                    pincode = None, country = None\<rparr>,
      displayName = nrm, embedding = emb, timestamp = ts\<rparr>"

text \<open>Two entries that differ only in their timestamps agree after \<open>erase_timestamp\<close>.\<close>

definition erase_timestamp :: "CacheEntry \<Rightarrow> CacheEntry" where
  "erase_timestamp e = e\<lparr>timestamp := 0\<rparr>"

text \<open>
  A provider result and a view of the outside world for concrete inputs: the embedding
  service answers \<open>emb\<close>, the geocoding service answers \<open>res\<close>, the clock reads \<open>t\<close>.
\<close>

definition sample_result :: "string \<Rightarrow> real \<Rightarrow> real \<Rightarrow> GeocodingResult" where
  "sample_result name la lo =
     \<lparr>res_lat = la, res_lng = lo, res_displayName = name,
      res_structured = \<lparr>building = None, street = None, area = None, city = None,
                        state = None, pincode = None, country = None\<rparr>,
      source = Api\<rparr>"

definition sample_externals :: "real list \<Rightarrow> GeocodingResult option \<Rightarrow> nat \<Rightarrow> Externals" where
  "sample_externals emb res t =
     \<lparr>generateEmbedding = (\<lambda>_. emb), geocode = (\<lambda>_. res), reverseGeocode = (\<lambda>_ _. res),
      now = t\<rparr>"

text \<open>The \<open>i\<close>-th request of a run of insertions made at the times \<open>0, 1, 2, ...\<close>\<close>

definition sample_request :: "nat \<Rightarrow> StoreRequest" where
  "sample_request i =
     \<lparr>rq_ext = sample_externals [1] None i, rq_address = ''a'', rq_normalized = ''a'',
      rq_result = sample_result ''a'' 0 0, rq_embedding = [1]\<rparr>"

text \<open>
  The record the keyed store holds under a key (expiry time and value), read without going
  through \<open>get\<close>.
\<close>

definition nc_record :: "NodeCache \<Rightarrow> string \<Rightarrow> (nat \<times> CacheEntry) option" where
  "nc_record nc key = map_of (data nc) key"

text \<open>
  A full cache: one insertion at time 0 followed by 999 insertions at time 1, all with
  the normalized key \<open>a\<close>.
\<close>

definition sample_full_state :: SemanticCacheService where
  "sample_full_state =
     store_all (sample_request 0 # replicate 999 (sample_request 1)) (constructor default_config)"

subsection \<open>Notions for the statements about normalizeAddress\<close>

text \<open>Alphanumeric characters, in the words of the specification: ASCII letters and digits.\<close>

definition is_alnum :: "char \<Rightarrow> bool" where
  "is_alnum c =
     (let n = (of_char c :: nat)
      in (97 \<le> n \<and> n \<le> 122) \<or> (65 \<le> n \<and> n \<le> 90) \<or> (48 \<le> n \<and> n \<le> 57))"

text \<open>The five abbreviation expansions that end the pipeline of \<open>normalizeAddress\<close>.\<close>

definition expand_abbreviations :: "string \<Rightarrow> string" where
  "expand_abbreviations s =
     replace_word ''maha'' ''maharashtra'' False
       (replace_word ''mh'' ''maharashtra'' False
         (replace_word ''ave'' ''avenue'' False
           (replace_word ''st'' ''street'' False
             (replace_word ''rd'' ''road'' False s))))"

text \<open>
  A string read as maximal runs of word characters (tokens) separated by other
  characters: \<open>map_tokens f\<close> replaces every token \<open>w\<close> by \<open>f w\<close> and keeps the rest.
\<close>

function map_tokens :: "(string \<Rightarrow> string) \<Rightarrow> string \<Rightarrow> string" where
  "map_tokens f [] = []"
| "map_tokens f (c # cs) =
     (if is_word c
      then f (takeWhile is_word (c # cs)) @ map_tokens f (dropWhile is_word (c # cs))
      else c # map_tokens f cs)"
  by pat_completeness auto
termination
  by (relation "measure (\<lambda>(f, s). length s)") (auto simp: less_Suc_eq_le length_dropWhile_le)

definition expand_token :: "string \<Rightarrow> string \<Rightarrow> string \<Rightarrow> string" where
  "expand_token pat rep w = (if w = pat then rep else w)"

definition expand_all :: "string \<Rightarrow> string" where
  "expand_all w =
     expand_token ''maha'' ''maharashtra''
       (expand_token ''mh'' ''maharashtra''
         (expand_token ''ave'' ''avenue''
           (expand_token ''st'' ''street''
             (expand_token ''rd'' ''road'' w))))"

text \<open>A function on tokens that returns a token (a non-empty string of word characters).\<close>

definition is_token :: "string \<Rightarrow> bool" where
  "is_token w = (w \<noteq> [] \<and> list_all is_word w)"

definition token_fun :: "(string \<Rightarrow> string) \<Rightarrow> bool" where
  "token_fun f = (\<forall>w. is_token w \<longrightarrow> is_token (f w))"

text \<open>A string without leading or trailing whitespace.\<close>

definition trimmed :: "string \<Rightarrow> bool" where
  "trimmed s = (s = [] \<or> (\<not> is_space (hd s) \<and> \<not> is_space (last s)))"

section \<open>cosineSimilarity: totality and bounds\<close>

lemma cosine_loop_prefix:
  "fold (cosine_body v w) [0 ..< n] (0, 0, 0) =
     (\<Sum>i<n. v ! i * w ! i, \<Sum>i<n. v ! i * v ! i, \<Sum>i<n. w ! i * w ! i)"
  by (induction n) (simp_all add: cosine_body_def)

lemma sum_nth_dot:
  "length a = length b \<Longrightarrow> (\<Sum>i<length a. a ! i * b ! i) = dot a b"
proof (induction a b rule: list_induct2)
  case Nil
  show ?case by (simp add: dot_def)
next
  case (Cons x xs y ys)
  then show ?case
    by (simp add: dot_def sum.lessThan_Suc_shift del: sum.lessThan_Suc)
qed

lemma sum_nth_squares: "(\<Sum>i<length a. a ! i * a ! i) = sum_list (map (\<lambda>x. x * x) a)"
  by (induction a) (simp_all add: sum.lessThan_Suc_shift del: sum.lessThan_Suc)

lemma cosine_loop_sums:
  "length a = length b \<Longrightarrow>
   cosine_loop a b = (dot a b, sum_list (map (\<lambda>x. x * x) a), sum_list (map (\<lambda>x. x * x) b))"
  using sum_nth_squares [of b] sum_nth_squares [of a] sum_nth_dot [of a b]
  by (simp add: cosine_loop_def cosine_loop_prefix)

lemma cosineSimilarity_eq:
  "cosineSimilarity a b =
     (if length a \<noteq> length b then 0
      else if magnitude a = 0 \<or> magnitude b = 0 then 0
      else dot a b / (magnitude a * magnitude b))"
  by (simp add: cosineSimilarity_def cosine_loop_sums magnitude_def Let_def)

lemma four_mult_le_square_sum:
  fixes x y :: real
  shows "4 * x * y \<le> (x + y)\<^sup>2"
proof -
  have "0 \<le> (x - y)\<^sup>2" by simp
  also have "(x - y)\<^sup>2 = (x + y)\<^sup>2 - 4 * x * y"
    by (simp add: power2_eq_square algebra_simps)
  finally show ?thesis by simp
qed

text \<open>One more component keeps the Cauchy-Schwarz inequality of the accumulators.\<close>

lemma cauchy_step:
  fixes a b d m1 m2 :: real
  assumes d: "d * d \<le> m1 * m2" and m1: "0 \<le> m1" and m2: "0 \<le> m2"
  shows "(d + a * b) * (d + a * b) \<le> (m1 + a * a) * (m2 + b * b)"
proof -
  have sq: "(2 * a * b * d)\<^sup>2 \<le> (m1 * (b * b) + m2 * (a * a))\<^sup>2"
  proof -
    have "(2 * a * b * d)\<^sup>2 = 4 * ((a * a) * (b * b)) * (d * d)"
      by (simp add: power2_eq_square algebra_simps)
    also have "\<dots> \<le> 4 * ((a * a) * (b * b)) * (m1 * m2)"
      using d by (intro mult_left_mono) simp_all
    also have "\<dots> = 4 * (m1 * (b * b)) * (m2 * (a * a))"
      by (simp add: algebra_simps)
    also have "\<dots> \<le> (m1 * (b * b) + m2 * (a * a))\<^sup>2"
      by (rule four_mult_le_square_sum)
    finally show ?thesis .
  qed
  have nn: "0 \<le> m1 * (b * b) + m2 * (a * a)"
    using m1 m2 by simp
  have "\<bar>2 * a * b * d\<bar> \<le> \<bar>m1 * (b * b) + m2 * (a * a)\<bar>"
    using sq by (simp only: abs_le_square_iff)
  then have "2 * a * b * d \<le> m1 * (b * b) + m2 * (a * a)"
    using nn by linarith
  then show ?thesis
    using d by (simp add: algebra_simps)
qed

lemma cauchy_schwarz_prefix:
  fixes v w :: "real list"
  shows "(\<Sum>i<n. v ! i * w ! i) * (\<Sum>i<n. v ! i * w ! i)
           \<le> (\<Sum>i<n. v ! i * v ! i) * (\<Sum>i<n. w ! i * w ! i)"
proof (induction n)
  case 0
  show ?case by simp
next
  case (Suc n)
  have "0 \<le> (\<Sum>i<n. v ! i * v ! i)" "0 \<le> (\<Sum>i<n. w ! i * w ! i)"
    by (simp_all add: sum_nonneg)
  with Suc show ?case
    by (simp add: cauchy_step)
qed

lemma abs_dot_le_magnitudes:
  assumes len: "length a = length b"
  shows "\<bar>dot a b\<bar> \<le> magnitude a * magnitude b"
proof -
  have "dot a b * dot a b
          \<le> sum_list (map (\<lambda>x. x * x) a) * sum_list (map (\<lambda>x. x * x) b)"
    using cauchy_schwarz_prefix [of a b "length a"] sum_nth_dot [OF len]
      sum_nth_squares [of a] sum_nth_squares [of b] len
    by simp
  then have "sqrt (dot a b * dot a b)
          \<le> sqrt (sum_list (map (\<lambda>x. x * x) a) * sum_list (map (\<lambda>x. x * x) b))"
    by (simp only: real_sqrt_le_iff)
  then show ?thesis
    by (simp add: magnitude_def real_sqrt_mult)
qed

lemma magnitude_nonneg: "0 \<le> magnitude a"
  by (auto simp: magnitude_def intro!: sum_list_nonneg)

lemma cosineSimilarity_abs_le_1: "\<bar>cosineSimilarity a b\<bar> \<le> 1"
proof (cases "length a = length b \<and> magnitude a \<noteq> 0 \<and> magnitude b \<noteq> 0")
  case False
  then show ?thesis
    by (auto simp: cosineSimilarity_eq)
next
  case True
  then have pos: "0 < magnitude a * magnitude b"
    using magnitude_nonneg [of a] magnitude_nonneg [of b] by (simp add: less_le)
  have "\<bar>dot a b\<bar> \<le> magnitude a * magnitude b"
    using True by (simp add: abs_dot_le_magnitudes)
  then have "\<bar>dot a b\<bar> / (magnitude a * magnitude b) \<le> 1"
    using pos by (simp add: pos_divide_le_eq)
  then have "\<bar>dot a b / (magnitude a * magnitude b)\<bar> \<le> 1"
    using pos by (simp only: abs_divide abs_of_pos)
  then show ?thesis
    using True by (simp add: cosineSimilarity_eq)
qed

text \<open>
  Claim C6. Over the reals \<open>cosineSimilarity\<close> is a total function whose value lies in
  \<open>[-1, 1]\<close>. It is exactly \<open>0\<close> when the vectors differ in length or when either
  magnitude is zero; otherwise it is the dot product divided by the product of the
  magnitudes, and that product is not zero where the division is made. Every read
  \<open>vec1[i]\<close>, \<open>vec2[i]\<close> of the loop is in range, since the loop runs only when the
  lengths agree.
\<close>

theorem cosineSimilarity_total_bounded:
  "(- 1 \<le> cosineSimilarity a b \<and> cosineSimilarity a b \<le> 1)
   \<and> (length a \<noteq> length b \<longrightarrow> cosineSimilarity a b = 0)
   \<and> (magnitude a = 0 \<or> magnitude b = 0 \<longrightarrow> cosineSimilarity a b = 0)
   \<and> (length a = length b \<and> magnitude a \<noteq> 0 \<and> magnitude b \<noteq> 0 \<longrightarrow>
        magnitude a * magnitude b \<noteq> 0
        \<and> cosineSimilarity a b = dot a b / (magnitude a * magnitude b))"
proof -
  have "- 1 \<le> cosineSimilarity a b \<and> cosineSimilarity a b \<le> 1"
    using cosineSimilarity_abs_le_1 [of a b] by linarith
  then show ?thesis
    by (simp add: cosineSimilarity_eq)
qed

theorem cosineSimilarity_total_bounded_witness:
  "length [3, 4 :: real] = length [4, 3 :: real]
   \<and> magnitude [3, 4] = 5 \<and> magnitude [4, 3] = 5
   \<and> cosineSimilarity [3, 4] [4, 3] = 24 / 25
   \<and> length [1 :: real] \<noteq> length [1, 2 :: real] \<and> cosineSimilarity [1] [1, 2] = 0
   \<and> magnitude [0, 0] = 0 \<and> cosineSimilarity [0, 0] [1, 2] = 0"
proof -
  have m: "magnitude [3, 4] = 5" "magnitude [4, 3] = 5" "magnitude [0, 0] = 0"
    using real_sqrt_abs2 [of 5] by (simp_all add: magnitude_def)
  have d: "dot [3, 4] [4, 3] = 24"
    by (simp add: dot_def)
  show ?thesis
    using cosineSimilarity_total_bounded [of "[3, 4]" "[4, 3]"]
      cosineSimilarity_total_bounded [of "[1]" "[1, 2]"]
      cosineSimilarity_total_bounded [of "[0, 0]" "[1, 2]"] m d
    by simp
qed

section \<open>Great-circle distance at particular points\<close>

lemma haversineDistance_same: "haversineDistance la lo la lo = 0"
  by (simp add: haversineDistance_def atan2_def)

lemma haversineDistance_antipode: "haversineDistance 0 180 0 0 = 6371000 * pi"
  by (simp add: haversineDistance_def atan2_def)

lemma haversineDistance_antipode_rev: "haversineDistance 0 0 0 180 = 6371000 * pi"
  by (simp add: haversineDistance_def atan2_def)

section \<open>findSimilar: the selection policy\<close>

lemma findSimilar_fold_select:
  "(\<forall>b. bm = Some b \<longrightarrow> bs = cosineSimilarity q (embedding b)) \<Longrightarrow>
   fst (fold (findSimilar_body cfg q) es (bm, bs)) = select_best cfg q bm es"
proof (induction es arbitrary: bm bs)
  case Nil
  show ?case by simp
next
  case (Cons e es)
  show ?case
  proof (cases bm)
    case None
    then show ?thesis
      using Cons.IH [of "Some e" "cosineSimilarity q (embedding e)"] Cons.IH [of None bs]
      by (simp add: findSimilar_body_def is_candidate_def)
  next
    case (Some b)
    then have bs: "bs = cosineSimilarity q (embedding b)"
      using Cons.prems by simp
    show ?thesis
      using Some bs Cons.IH [of "Some e" "cosineSimilarity q (embedding e)"]
        Cons.IH [of "Some b" bs]
      by (auto simp: findSimilar_body_def is_candidate_def Let_def)
  qed
qed

lemma select_best_None_iff:
  "(select_best cfg q bm es = None) = (bm = None \<and> (\<forall>e\<in>set es. \<not> is_candidate cfg q e))"
  by (induction cfg q bm es rule: select_best.induct) auto

text \<open>
  Claim C1. \<open>findSimilar\<close> scans the entries in order and selects as the specification
  says: the first entry whose similarity to the query exceeds the similarity threshold
  becomes the provisional best; a later entry above the threshold replaces it only if its
  similarity exceeds that of the provisional best and its distance to the provisional best
  is under the distance threshold; the last provisional best is returned, and the result
  is none exactly when no entry exceeds the threshold. In particular a second candidate
  that is not within the distance threshold of the first one (800 m against 500 m) does
  not override it.
\<close>

theorem findSimilar_selection_policy:
  "findSimilar cfg es nrm q = select_best cfg q None es
   \<and> ((findSimilar cfg es nrm q = None) = (\<forall>e\<in>set es. \<not> is_candidate cfg q e))
   \<and> (is_candidate cfg q e1 \<and> is_candidate cfg q e2
        \<and> \<not> haversineDistance (lat e2) (lng e2) (lat e1) (lng e1) < of_int (DISTANCE_THRESHOLD cfg)
       \<longrightarrow> findSimilar cfg [e1, e2] nrm q = Some e1)"
proof -
  have eq: "\<And>xs. findSimilar cfg xs nrm q = select_best cfg q None xs"
    by (simp add: findSimilar_def findSimilar_fold_select)
  show ?thesis
    by (simp add: eq select_best_None_iff)
qed

theorem findSimilar_selection_policy_witness:
  "is_candidate default_config [1] (sample_entry ''a'' 0 0 [1] 0)
   \<and> is_candidate default_config [1] (sample_entry ''b'' 0 180 [2] 0)
   \<and> \<not> haversineDistance (lat (sample_entry ''b'' 0 180 [2] 0)) (lng (sample_entry ''b'' 0 180 [2] 0))
          (lat (sample_entry ''a'' 0 0 [1] 0)) (lng (sample_entry ''a'' 0 0 [1] 0))
        < of_int (DISTANCE_THRESHOLD default_config)
   \<and> findSimilar default_config [sample_entry ''a'' 0 0 [1] 0, sample_entry ''b'' 0 180 [2] 0] ''q'' [1]
       = Some (sample_entry ''a'' 0 0 [1] 0)
   \<and> \<not> is_candidate default_config [1] (sample_entry ''c'' 0 0 [0] 0)
   \<and> findSimilar default_config [sample_entry ''c'' 0 0 [0] 0] ''q'' [1] = None"
proof -
  have c: "cosineSimilarity [1] [1] = 1" "cosineSimilarity [1] [2] = 1" "cosineSimilarity [1] [0] = 0"
    using real_sqrt_abs2 [of 2] by (simp_all add: cosineSimilarity_eq magnitude_def dot_def)
  have far: "\<not> 6371000 * pi < 500"
    using pi_ge_two by linarith
  show ?thesis
    using findSimilar_selection_policy
        [of default_config "[sample_entry ''c'' 0 0 [0] 0]" "''q''" "[1]"
          "sample_entry ''a'' 0 0 [1] 0" "sample_entry ''b'' 0 180 [2] 0"] c far
    by (simp add: is_candidate_def sample_entry_def default_config_def haversineDistance_antipode)
qed

section \<open>findNearby: first match\<close>

lemma findNearby_find:
  "findNearby es lat0 lng0 r =
     List.find (\<lambda>e. haversineDistance lat0 lng0 (lat e) (lng e) < r) es"
  by (induction es) simp_all

text \<open>
  Claim C3. \<open>findNearby\<close> scans the entries in insertion order and returns the first
  entry whose great-circle distance to the given point is strictly less than the radius,
  or none if no entry is that close; the reverse-geocode path calls it with a radius of
  100 metres. The entry returned is the first match, which need not be the closest one.
\<close>

theorem findNearby_first_match:
  "findNearby es lat0 lng0 r =
     List.find (\<lambda>e. haversineDistance lat0 lng0 (lat e) (lng e) < r) es
   \<and> ((findNearby es lat0 lng0 r = Some e) =
        (\<exists>i<length es. es ! i = e
           \<and> haversineDistance lat0 lng0 (lat e) (lng e) < r
           \<and> (\<forall>j<i. \<not> haversineDistance lat0 lng0 (lat (es ! j)) (lng (es ! j)) < r)))
   \<and> ((findNearby es lat0 lng0 r = None) =
        (\<forall>e\<in>set es. \<not> haversineDistance lat0 lng0 (lat e) (lng e) < r))
   \<and> fst (reverseGeocodeWithCache ext lat0 lng0 s) =
        (case findNearby (cacheEntries s) lat0 lng0 100 of
           Some n \<Rightarrow> Some (hit_result n)
         | None \<Rightarrow> reverseGeocode ext lat0 lng0)
   \<and> (\<exists>es' e1 e2. findNearby es' 0 0 30000000 = Some e1 \<and> e2 \<in> set es'
          \<and> haversineDistance 0 0 (lat e2) (lng e2) < haversineDistance 0 0 (lat e1) (lng e1))"
proof -
  have idx: "(findNearby es lat0 lng0 r = Some e) =
        (\<exists>i<length es. es ! i = e
           \<and> haversineDistance lat0 lng0 (lat e) (lng e) < r
           \<and> (\<forall>j<i. \<not> haversineDistance lat0 lng0 (lat (es ! j)) (lng (es ! j)) < r))"
    unfolding findNearby_find find_Some_iff by blast
  have none: "(findNearby es lat0 lng0 r = None) =
        (\<forall>e\<in>set es. \<not> haversineDistance lat0 lng0 (lat e) (lng e) < r)"
    unfolding findNearby_find find_None_iff by blast
  have rev: "fst (reverseGeocodeWithCache ext lat0 lng0 s) =
        (case findNearby (cacheEntries s) lat0 lng0 100 of
           Some n \<Rightarrow> Some (hit_result n)
         | None \<Rightarrow> reverseGeocode ext lat0 lng0)"
    by (simp add: reverseGeocodeWithCache_def Let_def split: option.splits)
  have pi4: "6371000 * pi < 30000000" "0 < 6371000 * pi"
    using pi_less_4 pi_gt_zero by simp_all
  have "findNearby [sample_entry ''far'' 0 180 [] 0, sample_entry ''near'' 0 0 [] 0] 0 0 30000000
          = Some (sample_entry ''far'' 0 180 [] 0)
        \<and> sample_entry ''near'' 0 0 [] 0
            \<in> set [sample_entry ''far'' 0 180 [] 0, sample_entry ''near'' 0 0 [] 0]
        \<and> haversineDistance 0 0 (lat (sample_entry ''near'' 0 0 [] 0)) (lng (sample_entry ''near'' 0 0 [] 0))
            < haversineDistance 0 0 (lat (sample_entry ''far'' 0 180 [] 0)) (lng (sample_entry ''far'' 0 180 [] 0))"
    using pi4
    by (simp add: sample_entry_def haversineDistance_antipode_rev haversineDistance_same)
  then have ex: "\<exists>es' e1 e2. findNearby es' 0 0 30000000 = Some e1 \<and> e2 \<in> set es'
          \<and> haversineDistance 0 0 (lat e2) (lng e2) < haversineDistance 0 0 (lat e1) (lng e1)"
    by blast
  show ?thesis
    using idx none rev ex findNearby_find by blast
qed

theorem findNearby_first_match_witness:
  "findNearby [sample_entry ''far'' 0 180 [] 0, sample_entry ''near'' 0 0 [] 0] 0 0 30000000
     = Some (sample_entry ''far'' 0 180 [] 0)
   \<and> \<not> haversineDistance 0 0 (lat (sample_entry ''far'' 0 180 [] 0))
           (lng (sample_entry ''far'' 0 180 [] 0)) < 100
   \<and> findNearby [sample_entry ''far'' 0 180 [] 0] 0 0 100 = None"
proof -
  have pi4: "6371000 * pi < 30000000" "\<not> 6371000 * pi < 100"
    using pi_less_4 pi_ge_two by simp_all
  show ?thesis
    using findNearby_first_match
        [of "[sample_entry ''far'' 0 180 [] 0]" 0 0 100 "sample_entry ''far'' 0 180 [] 0"]
      findNearby_first_match
        [of "[sample_entry ''far'' 0 180 [] 0, sample_entry ''near'' 0 0 [] 0]" 0 0 30000000
            "sample_entry ''far'' 0 180 [] 0"]
      pi4
    by (simp add: sample_entry_def haversineDistance_antipode_rev haversineDistance_same)
qed

section \<open>Matching does not read timestamps\<close>

lemma erase_timestamp_fields:
  assumes "erase_timestamp e = erase_timestamp e'"
  shows "embedding e = embedding e'" "lat e = lat e'" "lng e = lng e'"
    "hit_result e = hit_result e'"
proof -
  have "embedding (erase_timestamp e) = embedding (erase_timestamp e')"
    "lat (erase_timestamp e) = lat (erase_timestamp e')"
    "lng (erase_timestamp e) = lng (erase_timestamp e')"
    "displayName (erase_timestamp e) = displayName (erase_timestamp e')"
    "structured (erase_timestamp e) = structured (erase_timestamp e')"
    using assms by simp_all
  then show "embedding e = embedding e'" "lat e = lat e'" "lng e = lng e'"
    "hit_result e = hit_result e'"
    by (simp_all add: erase_timestamp_def hit_result_def)
qed

lemma select_best_erase:
  "map erase_timestamp es = map erase_timestamp es' \<Longrightarrow>
   map_option erase_timestamp bm = map_option erase_timestamp bm' \<Longrightarrow>
   map_option erase_timestamp (select_best cfg q bm es)
     = map_option erase_timestamp (select_best cfg q bm' es')"
proof (induction es arbitrary: es' bm bm')
  case Nil
  then show ?case by simp
next
  case (Cons e es)
  then obtain e' es'' where es': "es' = e' # es''"
    and e: "erase_timestamp e = erase_timestamp e'"
    and rest: "map erase_timestamp es = map erase_timestamp es''"
    by (cases es') auto
  note f = erase_timestamp_fields [OF e]
  show ?case
  proof (cases bm)
    case None
    then have bm': "bm' = None" using Cons.prems(2) by simp
    show ?thesis
      using None bm' es' f Cons.IH [OF rest, of "Some e" "Some e'"] Cons.IH [OF rest, of None None] e
      by (simp add: is_candidate_def)
  next
    case (Some b)
    then obtain b' where bm': "bm' = Some b'" and b: "erase_timestamp b = erase_timestamp b'"
      using Cons.prems(2) by (cases bm') auto
    note g = erase_timestamp_fields [OF b]
    show ?thesis
      using Some bm' es' f g Cons.IH [OF rest, of "Some e" "Some e'"]
        Cons.IH [OF rest, of "Some b" "Some b'"] e b
      by (simp add: is_candidate_def)
  qed
qed

lemma findNearby_erase:
  "map erase_timestamp es = map erase_timestamp es' \<Longrightarrow>
   map_option erase_timestamp (findNearby es la lo r)
     = map_option erase_timestamp (findNearby es' la lo r)"
proof (induction es arbitrary: es')
  case Nil
  then show ?case by simp
next
  case (Cons e es)
  then obtain e' es'' where es': "es' = e' # es''"
    and e: "erase_timestamp e = erase_timestamp e'"
    and rest: "map erase_timestamp es = map erase_timestamp es''"
    by (cases es') auto
  show ?case
    using es' e erase_timestamp_fields [OF e] Cons.IH [OF rest]
    by (simp add: Let_def)
qed

lemma map_option_hit_result:
  "map_option erase_timestamp x = map_option erase_timestamp y \<Longrightarrow>
   map_option hit_result x = map_option hit_result y"
  by (cases x; cases y) (auto dest: erase_timestamp_fields(4))

lemma store_first:
  "store ext addr nrm res emb (constructor cfg) =
     \<lparr>cache = nc_set (nc_new (CACHE_TTL cfg)) (cache_key nrm) (make_entry ext addr nrm res emb) (now ext),
      cacheEntries = [make_entry ext addr nrm res emb]\<rparr>"
  by (simp add: store_def constructor_def Let_def)

lemma make_entry_position:
  "lat (make_entry ext addr nrm res emb) = res_lat res"
  "lng (make_entry ext addr nrm res emb) = res_lng res"
  "embedding (make_entry ext addr nrm res emb) = emb"
  by (simp_all add: make_entry_def)

text \<open>
  Claim C8. The results of \<open>findSimilar\<close> and \<open>findNearby\<close> do not depend on the
  timestamps of the stored entries: over two sequences of entries that differ only in
  timestamps both return the entry at the same position, equal up to its timestamp, and
  the result handed to the caller is the same. The sequence used for matching is not
  pruned by the TTL: once the TTL of an entry has passed and the keyed store has dropped
  its key, the entry is still in the sequence and is still returned by the reverse and
  the forward matching paths.
\<close>

theorem matching_ignores_timestamps:
  "(map erase_timestamp es = map erase_timestamp es' \<longrightarrow>
      map_option erase_timestamp (findSimilar cfg es nrm q)
        = map_option erase_timestamp (findSimilar cfg es' nrm q)
      \<and> map_option erase_timestamp (findNearby es la lo r)
        = map_option erase_timestamp (findNearby es' la lo r)
      \<and> map_option hit_result (findSimilar cfg es nrm q)
        = map_option hit_result (findSimilar cfg es' nrm q)
      \<and> map_option hit_result (findNearby es la lo r)
        = map_option hit_result (findNearby es' la lo r))
   \<and> (CACHE_TTL cfg \<noteq> 0 \<and> now ext + CACHE_TTL cfg * 1000 < t \<longrightarrow>
        nc_keys (cache (apply_operation cfg (CheckData t)
                          (store ext addr nrm0 res emb (constructor cfg)))) = []
        \<and> cacheEntries (apply_operation cfg (CheckData t)
                          (store ext addr nrm0 res emb (constructor cfg)))
            = [make_entry ext addr nrm0 res emb]
        \<and> fst (reverseGeocodeWithCache ext' (res_lat res) (res_lng res)
                 (apply_operation cfg (CheckData t)
                    (store ext addr nrm0 res emb (constructor cfg))))
            = Some (hit_result (make_entry ext addr nrm0 res emb))
        \<and> (cosineSimilarity (generateEmbedding ext' (normalizeAddress addr')) emb
              > SIMILARITY_THRESHOLD cfg \<longrightarrow>
            fst (geocodeWithCache cfg ext' addr'
                   (apply_operation cfg (CheckData t)
                      (store ext addr nrm0 res emb (constructor cfg))))
              = Some (hit_result (make_entry ext addr nrm0 res emb))))"
proof -
  have inv: "map erase_timestamp es = map erase_timestamp es' \<Longrightarrow>
      map_option erase_timestamp (findSimilar cfg es nrm q)
        = map_option erase_timestamp (findSimilar cfg es' nrm q)
      \<and> map_option erase_timestamp (findNearby es la lo r)
        = map_option erase_timestamp (findNearby es' la lo r)"
    using select_best_erase [of es es' None None cfg q] findNearby_erase [of es es' la lo r]
    by (simp add: findSimilar_def findSimilar_fold_select)
  have keys: "CACHE_TTL cfg \<noteq> 0 \<Longrightarrow> now ext + CACHE_TTL cfg * 1000 < t \<Longrightarrow>
        nc_keys (cache (apply_operation cfg (CheckData t)
                          (store ext addr nrm0 res emb (constructor cfg)))) = []"
    by (simp add: store_first nc_checkData_def nc_set_def nc_new_def nc_keys_def expired_def)
  have ents: "cacheEntries (apply_operation cfg (CheckData t)
                          (store ext addr nrm0 res emb (constructor cfg)))
            = [make_entry ext addr nrm0 res emb]"
    by (simp add: store_first)
  have rev: "fst (reverseGeocodeWithCache ext' (res_lat res) (res_lng res)
                 (apply_operation cfg (CheckData t)
                    (store ext addr nrm0 res emb (constructor cfg))))
            = Some (hit_result (make_entry ext addr nrm0 res emb))"
    by (simp add: reverseGeocodeWithCache_def store_first make_entry_position haversineDistance_same)
  have fwd: "cosineSimilarity (generateEmbedding ext' (normalizeAddress addr')) emb
              > SIMILARITY_THRESHOLD cfg \<Longrightarrow>
            fst (geocodeWithCache cfg ext' addr'
                   (apply_operation cfg (CheckData t)
                      (store ext addr nrm0 res emb (constructor cfg))))
              = Some (hit_result (make_entry ext addr nrm0 res emb))"
    by (simp add: geocodeWithCache_def store_first findSimilar_def findSimilar_body_def
        make_entry_position)
  show ?thesis
    using inv keys ents rev fwd map_option_hit_result by blast
qed

theorem matching_ignores_timestamps_witness:
  "map erase_timestamp [sample_entry ''a'' 0 0 [1] 5] = map erase_timestamp [sample_entry ''a'' 0 0 [1] 99]
   \<and> map_option hit_result (findNearby [sample_entry ''a'' 0 0 [1] 5] 0 0 100)
       = map_option hit_result (findNearby [sample_entry ''a'' 0 0 [1] 99] 0 0 100)
   \<and> map_option hit_result (findSimilar default_config [sample_entry ''a'' 0 0 [1] 5] ''q'' [1])
       = map_option hit_result (findSimilar default_config [sample_entry ''a'' 0 0 [1] 99] ''q'' [1])
   \<and> CACHE_TTL default_config \<noteq> 0
   \<and> now (sample_externals [1] None 0) + CACHE_TTL default_config * 1000 < 86400001
   \<and> cosineSimilarity (generateEmbedding (sample_externals [1] None 86400001) (normalizeAddress ''b'')) [1]
       > SIMILARITY_THRESHOLD default_config
   \<and> nc_keys (cache (apply_operation default_config (CheckData 86400001)
          (store (sample_externals [1] None 0) ''a'' ''a'' (sample_result ''a'' 0 0) [1]
             (constructor default_config)))) = []
   \<and> fst (reverseGeocodeWithCache (sample_externals [1] None 86400001) 0 0
        (apply_operation default_config (CheckData 86400001)
          (store (sample_externals [1] None 0) ''a'' ''a'' (sample_result ''a'' 0 0) [1]
             (constructor default_config))))
       = Some (hit_result (make_entry (sample_externals [1] None 0) ''a'' ''a'' (sample_result ''a'' 0 0) [1]))
   \<and> fst (geocodeWithCache default_config (sample_externals [1] None 86400001) ''b''
        (apply_operation default_config (CheckData 86400001)
          (store (sample_externals [1] None 0) ''a'' ''a'' (sample_result ''a'' 0 0) [1]
             (constructor default_config))))
       = Some (hit_result (make_entry (sample_externals [1] None 0) ''a'' ''a'' (sample_result ''a'' 0 0) [1]))"
proof -
  have c: "cosineSimilarity [1] [1] = 1"
    by (simp add: cosineSimilarity_eq magnitude_def dot_def)
  have e: "map erase_timestamp [sample_entry ''a'' 0 0 [1] 5]
             = map erase_timestamp [sample_entry ''a'' 0 0 [1] 99]"
    by (simp add: erase_timestamp_def sample_entry_def)
  have h: "CACHE_TTL default_config \<noteq> 0"
    "now (sample_externals [1] None 0) + CACHE_TTL default_config * 1000 < 86400001"
    "cosineSimilarity (generateEmbedding (sample_externals [1] None 86400001) (normalizeAddress ''b'')) [1]
       > SIMILARITY_THRESHOLD default_config"
    "res_lat (sample_result ''a'' 0 0) = 0" "res_lng (sample_result ''a'' 0 0) = 0"
    using c by (simp_all add: default_config_def sample_externals_def sample_result_def)
  show ?thesis
    using matching_ignores_timestamps
        [of "[sample_entry ''a'' 0 0 [1] 5]" "[sample_entry ''a'' 0 0 [1] 99]"
            default_config "''q''" "[1]" 0 0 100
            "sample_externals [1] None 0" 86400001 "''a''" "''a''" "sample_result ''a'' 0 0" "[1]"
            "sample_externals [1] None 86400001" "''b''"]
      e h
    by simp
qed

section \<open>store: capacity and FIFO eviction\<close>

lemma store_cacheEntries:
  "cacheEntries (store ext addr nrm res emb s) =
     (if 1000 \<le> length (cacheEntries s)
      then tl (cacheEntries s) @ [make_entry ext addr nrm res emb]
      else cacheEntries s @ [make_entry ext addr nrm res emb])"
  by (cases "cacheEntries s") (auto simp: store_def Let_def)

lemma store_request_cacheEntries:
  "cacheEntries (store_request r s) =
     (if 1000 \<le> length (cacheEntries s) then tl (cacheEntries s) @ [entry_of r]
      else cacheEntries s @ [entry_of r])"
  by (simp add: store_request_def entry_of_def store_cacheEntries)

lemma store_all_cacheEntries:
  "length (cacheEntries s) \<le> 1000 \<Longrightarrow>
   cacheEntries (store_all rs s) =
     drop (length (cacheEntries s) + length rs - 1000) (cacheEntries s @ map entry_of rs)"
proof (induction rs arbitrary: s)
  case Nil
  then show ?case by (simp add: store_all_def)
next
  case (Cons r rs)
  have unfold: "store_all (r # rs) s = store_all rs (store_request r s)"
    by (simp add: store_all_def)
  show ?case
  proof (cases "length (cacheEntries s) = 1000")
    case True
    then obtain x xs where es: "cacheEntries s = x # xs" and xs: "length xs = 999"
      by (cases "cacheEntries s") auto
    have step: "cacheEntries (store_request r s) = xs @ [entry_of r]"
      using True es by (simp add: store_request_cacheEntries)
    have "length (cacheEntries (store_request r s)) \<le> 1000"
      using xs by (simp add: step)
    from Cons.IH [OF this] show ?thesis
      using xs by (simp add: unfold step es)
  next
    case False
    then have lt: "length (cacheEntries s) < 1000"
      using Cons.prems by simp
    have step: "cacheEntries (store_request r s) = cacheEntries s @ [entry_of r]"
      using lt by (simp add: store_request_cacheEntries)
    have "length (cacheEntries (store_request r s)) \<le> 1000"
      using lt by (simp add: step)
    from Cons.IH [OF this] show ?thesis
      by (simp add: unfold step)
  qed
qed

lemma tl_nth_mem:
  "1 \<le> i \<Longrightarrow> i < length xs \<Longrightarrow> xs ! i \<in> set (tl xs)"
  by (cases xs; cases i) auto

text \<open>
  Claim C2. After any sequence of insertions into an empty cache the ordered sequence
  holds at most 1000 entries, namely the last 1000 insertions in insertion order, so its
  first entry is the oldest surviving insertion; an insertion into a full sequence removes
  exactly the entry at index 0 and appends the new one. After 1001 insertions the
  sequence is the list of insertions 2 to 1001: these are present, and the first
  insertion is absent (it occurs nowhere in the sequence when the inserted entries are
  pairwise different).
\<close>

theorem store_capacity_fifo:
  "length (cacheEntries (store_all rs (constructor cfg))) \<le> 1000
   \<and> cacheEntries (store_all rs (constructor cfg)) = drop (length rs - 1000) (map entry_of rs)
   \<and> cacheEntries (store ext addr nrm res emb s) =
       (if 1000 \<le> length (cacheEntries s)
        then tl (cacheEntries s) @ [make_entry ext addr nrm res emb]
        else cacheEntries s @ [make_entry ext addr nrm res emb])
   \<and> (length rs = 1001 \<longrightarrow>
        cacheEntries (store_all rs (constructor cfg)) = tl (map entry_of rs)
        \<and> (\<forall>i. 1 \<le> i \<and> i < 1001 \<longrightarrow>
              entry_of (rs ! i) \<in> set (cacheEntries (store_all rs (constructor cfg))))
        \<and> (distinct (map entry_of rs) \<longrightarrow>
              entry_of (rs ! 0) \<notin> set (cacheEntries (store_all rs (constructor cfg)))))"
proof -
  have eq: "cacheEntries (store_all rs (constructor cfg)) = drop (length rs - 1000) (map entry_of rs)"
    using store_all_cacheEntries [of "constructor cfg" rs] by (simp add: constructor_def)
  have len: "length (cacheEntries (store_all rs (constructor cfg))) \<le> 1000"
    by (simp add: eq)
  have d: "length rs = 1001 \<Longrightarrow>
        cacheEntries (store_all rs (constructor cfg)) = tl (map entry_of rs)"
    by (simp add: eq drop_Suc)
  have present: "length rs = 1001 \<Longrightarrow> 1 \<le> i \<Longrightarrow> i < 1001 \<Longrightarrow>
       entry_of (rs ! i) \<in> set (cacheEntries (store_all rs (constructor cfg)))" for i
    using tl_nth_mem [of i "map entry_of rs"] by (simp add: d)
  have absent: "length rs = 1001 \<Longrightarrow> distinct (map entry_of rs) \<Longrightarrow>
       entry_of (rs ! 0) \<notin> set (cacheEntries (store_all rs (constructor cfg)))"
  proof -
    assume l: "length rs = 1001" and dis: "distinct (map entry_of rs)"
    then obtain r rest where rs: "rs = r # rest" by (cases rs) auto
    show ?thesis
      using dis by (simp add: d l) (simp add: rs)
  qed
  show ?thesis
    using eq len d present absent store_cacheEntries by blast
qed

lemma distinct_sample_requests: "distinct (map entry_of (map sample_request [0 ..< n]))"
  by (simp add: distinct_map inj_on_def comp_def entry_of_def make_entry_def sample_request_def
      sample_externals_def)

theorem store_capacity_fifo_witness:
  "length (map sample_request [0 ..< 1001]) = 1001
   \<and> distinct (map entry_of (map sample_request [0 ..< 1001]))
   \<and> cacheEntries (store_all (map sample_request [0 ..< 1001]) (constructor default_config))
       = tl (map entry_of (map sample_request [0 ..< 1001]))
   \<and> entry_of (map sample_request [0 ..< 1001] ! 0)
       \<notin> set (cacheEntries (store_all (map sample_request [0 ..< 1001]) (constructor default_config)))
   \<and> entry_of (map sample_request [0 ..< 1001] ! 1)
       \<in> set (cacheEntries (store_all (map sample_request [0 ..< 1001]) (constructor default_config)))
   \<and> entry_of (map sample_request [0 ..< 1001] ! 1000)
       \<in> set (cacheEntries (store_all (map sample_request [0 ..< 1001]) (constructor default_config)))"
proof -
  have l: "length (map sample_request [0 ..< 1001]) = 1001" by simp
  note t = store_capacity_fifo [of "map sample_request [0 ..< 1001]" default_config]
  have a: "cacheEntries (store_all (map sample_request [0 ..< 1001]) (constructor default_config))
       = tl (map entry_of (map sample_request [0 ..< 1001]))"
    using t l by blast
  have b: "entry_of (map sample_request [0 ..< 1001] ! 0)
       \<notin> set (cacheEntries (store_all (map sample_request [0 ..< 1001]) (constructor default_config)))"
    using t l distinct_sample_requests [of 1001] by blast
  have every: "\<forall>i. 1 \<le> i \<and> i < 1001 \<longrightarrow> entry_of (map sample_request [0 ..< 1001] ! i)
       \<in> set (cacheEntries (store_all (map sample_request [0 ..< 1001]) (constructor default_config)))"
    using t l by blast
  have i1: "(1::nat) \<le> 1 \<and> (1::nat) < 1001" and i2: "(1::nat) \<le> 1000 \<and> (1000::nat) < 1001"
    by simp_all
  have c: "entry_of (map sample_request [0 ..< 1001] ! 1)
       \<in> set (cacheEntries (store_all (map sample_request [0 ..< 1001]) (constructor default_config)))"
    "entry_of (map sample_request [0 ..< 1001] ! 1000)
       \<in> set (cacheEntries (store_all (map sample_request [0 ..< 1001]) (constructor default_config)))"
    using every i1 i2 by blast+
  show ?thesis
    using l distinct_sample_requests [of 1001] a b c by blast
qed

section \<open>A provider without result stores nothing\<close>

text \<open>
  Claim C7. When the geocoding provider returns no result, neither path stores anything:
  the state of the cache (the ordered sequence and the keyed store) is unchanged, and on
  a cache miss the caller receives none. This holds for \<open>geocodeWithCache\<close> with
  \<open>geocode\<close> and for \<open>reverseGeocodeWithCache\<close> with \<open>reverseGeocode\<close>.
\<close>

theorem provider_miss_stores_nothing:
  "(geocode ext addr = None \<longrightarrow>
      snd (geocodeWithCache cfg ext addr s) = s
      \<and> (findSimilar cfg (cacheEntries s) (normalizeAddress addr)
            (generateEmbedding ext (normalizeAddress addr)) = None \<longrightarrow>
          geocodeWithCache cfg ext addr s = (None, s)))
   \<and> (reverseGeocode ext la lo = None \<longrightarrow>
      snd (reverseGeocodeWithCache ext la lo s) = s
      \<and> (findNearby (cacheEntries s) la lo 100 = None \<longrightarrow>
          reverseGeocodeWithCache ext la lo s = (None, s)))"
  by (simp add: geocodeWithCache_def reverseGeocodeWithCache_def Let_def split: option.splits)

theorem provider_miss_stores_nothing_witness:
  "geocode (sample_externals [1, 0] None 5) ''b'' = None
   \<and> reverseGeocode (sample_externals [1, 0] None 5) 0 0 = None
   \<and> cacheEntries (store (sample_externals [0, 1] None 0) ''a'' ''a'' (sample_result ''a'' 0 180) [0, 1]
                     (constructor default_config))
       = [make_entry (sample_externals [0, 1] None 0) ''a'' ''a'' (sample_result ''a'' 0 180) [0, 1]]
   \<and> findSimilar default_config
         (cacheEntries (store (sample_externals [0, 1] None 0) ''a'' ''a'' (sample_result ''a'' 0 180) [0, 1]
                     (constructor default_config)))
         (normalizeAddress ''b'')
         (generateEmbedding (sample_externals [1, 0] None 5) (normalizeAddress ''b'')) = None
   \<and> findNearby
         (cacheEntries (store (sample_externals [0, 1] None 0) ''a'' ''a'' (sample_result ''a'' 0 180) [0, 1]
                     (constructor default_config))) 0 0 100 = None
   \<and> geocodeWithCache default_config (sample_externals [1, 0] None 5) ''b''
         (store (sample_externals [0, 1] None 0) ''a'' ''a'' (sample_result ''a'' 0 180) [0, 1]
            (constructor default_config))
       = (None, store (sample_externals [0, 1] None 0) ''a'' ''a'' (sample_result ''a'' 0 180) [0, 1]
            (constructor default_config))
   \<and> reverseGeocodeWithCache (sample_externals [1, 0] None 5) 0 0
         (store (sample_externals [0, 1] None 0) ''a'' ''a'' (sample_result ''a'' 0 180) [0, 1]
            (constructor default_config))
       = (None, store (sample_externals [0, 1] None 0) ''a'' ''a'' (sample_result ''a'' 0 180) [0, 1]
            (constructor default_config))"
proof -
  let ?s = "store (sample_externals [0, 1] None 0) ''a'' ''a'' (sample_result ''a'' 0 180) [0, 1]
              (constructor default_config)"
  let ?ext = "sample_externals [1, 0] None 5"
  have g: "geocode ?ext ''b'' = None" "reverseGeocode ?ext 0 0 = None"
    by (simp_all add: sample_externals_def)
  have ents: "cacheEntries ?s
       = [make_entry (sample_externals [0, 1] None 0) ''a'' ''a'' (sample_result ''a'' 0 180) [0, 1]]"
    by (simp add: store_first)
  have c: "cosineSimilarity [1, 0] [0, 1] = 0"
    by (simp add: cosineSimilarity_eq magnitude_def dot_def)
  have fs: "findSimilar default_config (cacheEntries ?s) (normalizeAddress ''b'')
         (generateEmbedding ?ext (normalizeAddress ''b'')) = None"
    unfolding ents using c
    by (simp add: findSimilar_def findSimilar_body_def make_entry_position
        sample_externals_def default_config_def)
  have far: "\<not> 6371000 * pi < 100"
    using pi_ge_two by linarith
  have fn: "findNearby (cacheEntries ?s) 0 0 100 = None"
    unfolding ents using far
    by (simp add: make_entry_position sample_result_def haversineDistance_antipode_rev)
  show ?thesis
    using provider_miss_stores_nothing [of ?ext "''b''" default_config ?s 0 0] g ents fs fn
    by simp
qed

section \<open>The hit and miss counters\<close>

lemma store_counters:
  "stats_hits (cache (store ext addr nrm res emb s)) = stats_hits (cache s)"
  "stats_misses (cache (store ext addr nrm res emb s)) = stats_misses (cache s)"
  by (cases "cacheEntries s"; simp add: store_def Let_def nc_set_def nc_del_def)+

lemma apply_operation_counters:
  assumes "stats_hits (cache s) = 0" and "stats_misses (cache s) = 0"
  shows "stats_hits (cache (apply_operation cfg op s)) = 0
         \<and> stats_misses (cache (apply_operation cfg op s)) = 0"
proof (cases op)
  case (GeocodeWithCache ext addr)
  then show ?thesis
    using assms
    by (simp add: geocodeWithCache_def Let_def store_counters split: option.splits)
next
  case (ReverseGeocodeWithCache ext la lo)
  then show ?thesis
    using assms
    by (simp add: reverseGeocodeWithCache_def Let_def store_counters split: option.splits)
next
  case GetStats
  then show ?thesis using assms by simp
next
  case Clear
  then show ?thesis by (simp add: clear_def nc_flushAll_def)
next
  case (CheckData t)
  then show ?thesis using assms by (simp add: nc_checkData_def)
qed

lemma fold_operations_counters:
  "stats_hits (cache s) = 0 \<Longrightarrow> stats_misses (cache s) = 0 \<Longrightarrow>
   stats_hits (cache (fold (apply_operation cfg) ops s)) = 0
   \<and> stats_misses (cache (fold (apply_operation cfg) ops s)) = 0"
proof (induction ops arbitrary: s)
  case Nil
  then show ?case by simp
next
  case (Cons op ops)
  from apply_operation_counters [OF Cons.prems, of cfg op]
  show ?case
    using Cons.IH [of "apply_operation cfg op s"] by simp
qed

text \<open>
  Claim C10. In every state the service reaches from its construction through
  \<open>geocodeWithCache\<close>, \<open>reverseGeocodeWithCache\<close>, \<open>getStats\<close> and \<open>clear\<close> (and the
  periodic expiry check of the keyed store), the \<open>hits\<close> and \<open>misses\<close> that \<open>getStats\<close>
  returns are both 0: the operations only set, delete, list and flush keys of the keyed
  store and never look one up.
\<close>

theorem getStats_hits_misses_zero:
  "hits (getStats (run cfg ops)) = 0 \<and> misses (getStats (run cfg ops)) = 0"
  using fold_operations_counters [of "constructor cfg" cfg ops]
  by (simp add: run_def getStats_def constructor_def nc_new_def)

theorem getStats_hits_misses_zero_witness:
  "hits (getStats (run default_config
      [GeocodeWithCache (sample_externals [1] (Some (sample_result ''a'' 0 0)) 0) ''a'',
       GeocodeWithCache (sample_externals [1] None 1) ''a'',
       ReverseGeocodeWithCache (sample_externals [1] None 2) 0 180,
       GetStats, CheckData 3, Clear])) = 0
   \<and> misses (getStats (run default_config
      [GeocodeWithCache (sample_externals [1] (Some (sample_result ''a'' 0 0)) 0) ''a'',
       GeocodeWithCache (sample_externals [1] None 1) ''a'',
       ReverseGeocodeWithCache (sample_externals [1] None 2) 0 180,
       GetStats, CheckData 3, Clear])) = 0"
  by (rule getStats_hits_misses_zero)

section \<open>Eviction: what changes and what does not\<close>

lemma map_of_obj_set:
  "map_of (obj_set k v kvs) k' = (if k' = k then Some v else map_of kvs k')"
  by (induction kvs) auto

lemma map_of_obj_delete:
  "map_of (obj_delete k kvs) k' = (if k' = k then None else map_of kvs k')"
  by (induction kvs) (auto simp: obj_delete_def)

lemma obj_set_twice: "obj_set k v (obj_set k w kvs) = obj_set k v kvs"
  by (induction kvs) auto

lemma nc_record_set:
  "nc_record (nc_set nc k v t) k' =
     (if k' = k then Some (if stdTTL nc = 0 then 0 else t + stdTTL nc * 1000, v)
      else nc_record nc k')"
  by (simp add: nc_record_def nc_set_def map_of_obj_set)

lemma nc_record_del:
  "nc_record (nc_del nc k) k' = (if k' = k then None else nc_record nc k')"
  by (simp add: nc_record_def nc_del_def map_of_obj_delete)

lemma store_at_capacity:
  assumes "1000 \<le> length (cacheEntries s)"
  shows "store ext addr nrm res emb s =
     \<lparr>cache = nc_del (nc_set (cache s) (cache_key nrm) (make_entry ext addr nrm res emb) (now ext))
                (cache_key (normalized (hd (cacheEntries s)))),
      cacheEntries = tl (cacheEntries s) @ [make_entry ext addr nrm res emb]\<rparr>"
  using assms by (cases "cacheEntries s") (auto simp: store_def Let_def)

text \<open>
  Claim C9, as amended. An insertion at capacity removes exactly the entry at index 0
  from the ordered sequence: the other entries stay, in their order, and the new entry is
  appended. In the keyed store it deletes the key of the removed entry, writes the record of
  the new entry under the new entry's key (unless that is the deleted key), and leaves the
  record under every other key unchanged. The keyed store holds one record per normalized
  key, so an entry that survives in the sequence and shares its normalized key with the
  removed entry has no record in the keyed store afterwards.
\<close>

theorem eviction_frame:
  "1000 \<le> length (cacheEntries s) \<longrightarrow>
     cacheEntries (store ext addr nrm res emb s)
       = tl (cacheEntries s) @ [make_entry ext addr nrm res emb]
     \<and> nc_record (cache (store ext addr nrm res emb s))
         (cache_key (normalized (hd (cacheEntries s)))) = None
     \<and> (cache_key nrm \<noteq> cache_key (normalized (hd (cacheEntries s))) \<longrightarrow>
         nc_record (cache (store ext addr nrm res emb s)) (cache_key nrm)
           = Some (if stdTTL (cache s) = 0 then 0 else now ext + stdTTL (cache s) * 1000,
                   make_entry ext addr nrm res emb))
     \<and> (\<forall>k. k \<noteq> cache_key (normalized (hd (cacheEntries s))) \<and> k \<noteq> cache_key nrm \<longrightarrow>
           nc_record (cache (store ext addr nrm res emb s)) k = nc_record (cache s) k)
     \<and> (\<forall>e \<in> set (tl (cacheEntries s)).
           normalized e = normalized (hd (cacheEntries s)) \<longrightarrow>
           e \<in> set (cacheEntries (store ext addr nrm res emb s))
           \<and> nc_record (cache (store ext addr nrm res emb s)) (cache_key (normalized e)) = None)"
  by (simp add: store_at_capacity nc_record_del nc_record_set)

lemma nc_set_twice: "nc_set (nc_set nc k v t) k v t = nc_set nc k v t"
  by (simp add: nc_set_def obj_set_twice)

lemma store_request_below_capacity:
  "length (cacheEntries s) < 1000 \<Longrightarrow>
   store_request r s =
     \<lparr>cache = nc_set (cache s) (cache_key (rq_normalized r)) (entry_of r) (now (rq_ext r)),
      cacheEntries = cacheEntries s @ [entry_of r]\<rparr>"
  by (simp add: store_request_def store_def entry_of_def Let_def)

lemma store_all_replicate:
  "length (cacheEntries s) + Suc n \<le> 1000 \<Longrightarrow>
   store_all (replicate (Suc n) r) s =
     \<lparr>cache = nc_set (cache s) (cache_key (rq_normalized r)) (entry_of r) (now (rq_ext r)),
      cacheEntries = cacheEntries s @ replicate (Suc n) (entry_of r)\<rparr>"
proof (induction n arbitrary: s)
  case 0
  then show ?case
    by (simp add: store_all_def store_request_below_capacity)
next
  case (Suc n)
  let ?s1 = "store_request r s"
  have s1: "?s1 = \<lparr>cache = nc_set (cache s) (cache_key (rq_normalized r)) (entry_of r) (now (rq_ext r)),
      cacheEntries = cacheEntries s @ [entry_of r]\<rparr>"
    using Suc.prems by (simp add: store_request_below_capacity)
  have "length (cacheEntries ?s1) + Suc n \<le> 1000"
    using Suc.prems by (simp add: s1)
  from Suc.IH [OF this]
  have "store_all (replicate (Suc n) r) ?s1 =
     \<lparr>cache = nc_set (cache ?s1) (cache_key (rq_normalized r)) (entry_of r) (now (rq_ext r)),
      cacheEntries = cacheEntries ?s1 @ replicate (Suc n) (entry_of r)\<rparr>" .
  moreover have "store_all (replicate (Suc (Suc n)) r) s = store_all (replicate (Suc n) r) ?s1"
    by (simp add: store_all_def)
  ultimately show ?case
    by (simp add: s1 nc_set_twice replicate_append_same)
qed

lemma sample_full_state_eq:
  "sample_full_state =
     \<lparr>cache = \<lparr>data = [(''geo:a'', (86400001, entry_of (sample_request 1)))],
                stats_hits = 0, stats_misses = 0, stdTTL = 86400\<rparr>,
      cacheEntries = entry_of (sample_request 0) # replicate 999 (entry_of (sample_request 1))\<rparr>"
proof -
  have first: "store_request (sample_request 0) (constructor default_config) =
      \<lparr>cache = nc_set (nc_new 86400) ''geo:a'' (entry_of (sample_request 0)) 0,
       cacheEntries = [entry_of (sample_request 0)]\<rparr>"
    by (simp add: store_request_below_capacity constructor_def default_config_def
        sample_request_def sample_externals_def cache_key_def)
  have "sample_full_state =
      store_all (replicate (Suc 998) (sample_request 1))
        (store_request (sample_request 0) (constructor default_config))"
    by (simp add: sample_full_state_def store_all_def)
  also have "\<dots> =
      \<lparr>cache = nc_set (nc_set (nc_new 86400) ''geo:a'' (entry_of (sample_request 0)) 0)
                 ''geo:a'' (entry_of (sample_request 1)) 1,
       cacheEntries = [entry_of (sample_request 0)] @ replicate (Suc 998) (entry_of (sample_request 1))\<rparr>"
    unfolding first
    by (subst store_all_replicate)
       (simp_all add: sample_request_def sample_externals_def cache_key_def)
  finally show ?thesis
    by (simp add: nc_set_def nc_new_def)
qed

theorem eviction_frame_counterexample:
  "length (cacheEntries sample_full_state) = 1000
   \<and> hd (cacheEntries sample_full_state) = entry_of (sample_request 0)
   \<and> entry_of (sample_request 1) \<noteq> entry_of (sample_request 0)
   \<and> normalized (entry_of (sample_request 1)) = normalized (entry_of (sample_request 0))
   \<and> entry_of (sample_request 1) \<in> set (cacheEntries sample_full_state)
   \<and> nc_record (cache sample_full_state) (cache_key (normalized (entry_of (sample_request 1))))
       = Some (86400001, entry_of (sample_request 1))
   \<and> entry_of (sample_request 1)
       \<in> set (cacheEntries (store (sample_externals [1] None 2) ''b'' ''b'' (sample_result ''b'' 0 0) [1]
                               sample_full_state))
   \<and> nc_record (cache (store (sample_externals [1] None 2) ''b'' ''b'' (sample_result ''b'' 0 0) [1]
                          sample_full_state))
        (cache_key (normalized (entry_of (sample_request 1)))) = None"
proof -
  let ?s' = "store (sample_externals [1] None 2) ''b'' ''b'' (sample_result ''b'' 0 0) [1]
               sample_full_state"
  have ne: "entry_of (sample_request 1) \<noteq> entry_of (sample_request 0)"
    by (simp add: entry_of_def make_entry_def sample_request_def sample_externals_def)
  have key: "normalized (entry_of (sample_request 1)) = ''a''"
    "normalized (entry_of (sample_request 0)) = ''a''"
    by (simp_all add: entry_of_def make_entry_def sample_request_def)
  have len: "length (cacheEntries sample_full_state) = 1000"
    by (simp add: sample_full_state_eq)
  have first: "hd (cacheEntries sample_full_state) = entry_of (sample_request 0)"
    by (simp add: sample_full_state_eq)
  have mem: "entry_of (sample_request 1) \<in> set (cacheEntries sample_full_state)"
    by (simp add: sample_full_state_eq)
  have before: "nc_record (cache sample_full_state) (cache_key ''a'')
       = Some (86400001, entry_of (sample_request 1))"
    by (simp add: sample_full_state_eq nc_record_def cache_key_def)
  have cap: "1000 \<le> length (cacheEntries sample_full_state)"
    by (simp add: len)
  have mem': "entry_of (sample_request 1) \<in> set (cacheEntries ?s')"
    unfolding store_at_capacity [OF cap] by (simp add: sample_full_state_eq)
  have after: "nc_record (cache ?s') (cache_key ''a'') = None"
    unfolding store_at_capacity [OF cap] first key
    by (simp add: nc_record_del)
  show ?thesis
    unfolding key using ne len first mem before mem' after by blast
qed

theorem eviction_frame_witness:
  "1000 \<le> length (cacheEntries sample_full_state)
   \<and> cacheEntries (store (sample_externals [1] None 2) ''b'' ''b'' (sample_result ''b'' 0 0) [1]
                     sample_full_state)
       = tl (cacheEntries sample_full_state)
           @ [make_entry (sample_externals [1] None 2) ''b'' ''b'' (sample_result ''b'' 0 0) [1]]
   \<and> nc_record (cache (store (sample_externals [1] None 2) ''b'' ''b'' (sample_result ''b'' 0 0) [1]
                          sample_full_state))
        (cache_key (normalized (hd (cacheEntries sample_full_state)))) = None
   \<and> cache_key ''b'' \<noteq> cache_key (normalized (hd (cacheEntries sample_full_state)))
   \<and> nc_record (cache (store (sample_externals [1] None 2) ''b'' ''b'' (sample_result ''b'' 0 0) [1]
                          sample_full_state)) (cache_key ''b'')
       = Some (if stdTTL (cache sample_full_state) = 0 then 0
               else now (sample_externals [1] None 2) + stdTTL (cache sample_full_state) * 1000,
               make_entry (sample_externals [1] None 2) ''b'' ''b'' (sample_result ''b'' 0 0) [1])
   \<and> entry_of (sample_request 1) \<in> set (tl (cacheEntries sample_full_state))
   \<and> normalized (entry_of (sample_request 1)) = normalized (hd (cacheEntries sample_full_state))
   \<and> nc_record (cache (store (sample_externals [1] None 2) ''b'' ''b'' (sample_result ''b'' 0 0) [1]
                          sample_full_state))
        (cache_key (normalized (entry_of (sample_request 1)))) = None"
proof -
  have cap: "1000 \<le> length (cacheEntries sample_full_state)"
    by (simp add: sample_full_state_eq)
  have k: "cache_key ''b'' \<noteq> cache_key (normalized (hd (cacheEntries sample_full_state)))"
    by (simp add: sample_full_state_eq cache_key_def entry_of_def make_entry_def sample_request_def)
  have m: "entry_of (sample_request 1) \<in> set (tl (cacheEntries sample_full_state))"
    by (simp add: sample_full_state_eq)
  have n: "normalized (entry_of (sample_request 1)) = normalized (hd (cacheEntries sample_full_state))"
    by (simp add: sample_full_state_eq entry_of_def make_entry_def sample_request_def)
  show ?thesis
    using eviction_frame [of sample_full_state "sample_externals [1] None 2" "''b''" "''b''"
        "sample_result ''b'' 0 0" "[1]"] cap k m n
    by blast
qed

section \<open>normalizeAddress: characters of the result\<close>

lemma of_char_underscore: "(of_char c = (95::nat)) = (c = CHR ''_'')"
proof -
  have "of_char (CHR ''_'') = (95::nat)" by simp
  then have "(of_char c = (95::nat)) = (of_char c = (of_char (CHR ''_'') :: nat))" by simp
  also have "\<dots> = (c = CHR ''_'')" by (rule of_char_eq_iff)
  finally show ?thesis .
qed

lemma is_word_alnum: "is_word c = (is_alnum c \<or> c = CHR ''_'')"
  by (simp add: is_word_def is_alnum_def Let_def of_char_underscore)

lemma set_replace_word: "set (replace_word pat rep prev s) \<subseteq> set s \<union> set rep"
proof (induction pat rep prev s rule: replace_word.induct)
  case (1 pat rep prev)
  show ?case by simp
next
  case (2 pat rep prev c cs)
  show ?case
  proof (cases "matches_at pat prev (c # cs)")
    case True
    have "set (drop (length pat - 1) cs) \<subseteq> set cs"
      by (rule set_drop_subset)
    with 2(1) [OF True] True show ?thesis by auto
  next
    case False
    with 2(2) [OF False] show ?thesis by auto
  qed
qed

lemma normalizeAddress_expand:
  "normalizeAddress x = expand_abbreviations (strip_nonword (collapse_ws (trim (toLowerCase x))))"
  by (simp add: normalizeAddress_def expand_abbreviations_def)

lemma replacement_letters:
  "\<forall>c \<in> set ''road'' \<union> set ''street'' \<union> set ''avenue'' \<union> set ''maharashtra''.
     is_word c \<and> toLowerCase_char c = c \<and> \<not> is_space c"
  by code_simp

lemma set_expand_abbreviations:
  "set (expand_abbreviations s)
     \<subseteq> set s \<union> (set ''road'' \<union> set ''street'' \<union> set ''avenue'' \<union> set ''maharashtra'')"
  unfolding expand_abbreviations_def
  using set_replace_word [of "''maha''" "''maharashtra''" False]
    set_replace_word [of "''mh''" "''maharashtra''" False]
    set_replace_word [of "''ave''" "''avenue''" False]
    set_replace_word [of "''st''" "''street''" False]
    set_replace_word [of "''rd''" "''road''" False]
  by blast

text \<open>
  Claim C5, as amended. The output of \<open>normalizeAddress\<close> contains only alphanumeric
  characters, underscores and whitespace: step 4 removes every character that is neither
  a word character of the regular expression (an alphanumeric character or the
  underscore) nor whitespace, and keeps the others.
\<close>

theorem normalizeAddress_characters:
  "(\<forall>c \<in> set (normalizeAddress x). is_alnum c \<or> c = CHR ''_'' \<or> is_space c)
   \<and> strip_nonword s = filter (\<lambda>c. is_alnum c \<or> c = CHR ''_'' \<or> is_space c) s"
proof -
  have strip: "strip_nonword s = filter (\<lambda>c. is_alnum c \<or> c = CHR ''_'' \<or> is_space c) s" for s
    by (simp add: strip_nonword_def is_word_alnum disj_assoc)
  have "is_alnum c \<or> c = CHR ''_'' \<or> is_space c" if "c \<in> set (normalizeAddress x)" for c
  proof -
    from that set_expand_abbreviations
    have "c \<in> set (strip_nonword (collapse_ws (trim (toLowerCase x))))
          \<or> c \<in> set ''road'' \<union> set ''street'' \<union> set ''avenue'' \<union> set ''maharashtra''"
      unfolding normalizeAddress_expand by blast
    then show ?thesis
    proof
      assume "c \<in> set (strip_nonword (collapse_ws (trim (toLowerCase x))))"
      then show ?thesis by (auto simp: strip)
    next
      assume "c \<in> set ''road'' \<union> set ''street'' \<union> set ''avenue'' \<union> set ''maharashtra''"
      with replacement_letters have "is_word c" by blast
      then show ?thesis by (auto simp: is_word_alnum)
    qed
  qed
  with strip show ?thesis by blast
qed

theorem normalizeAddress_characters_witness:
  "normalizeAddress ''12, M.G. Rd; Pune_MH'' = ''12 mg road pune_mh''
   \<and> list_all (\<lambda>c. is_alnum c \<or> c = CHR ''_'' \<or> is_space c)
        (normalizeAddress ''12, M.G. Rd; Pune_MH'')
   \<and> strip_nonword ''12, m.g. rd; pune_mh'' = ''12 mg rd pune_mh''"
proof -
  have a: "normalizeAddress ''12, M.G. Rd; Pune_MH'' = ''12 mg road pune_mh''"
    by code_simp
  have b: "filter (\<lambda>c. is_alnum c \<or> c = CHR ''_'' \<or> is_space c) ''12, m.g. rd; pune_mh''
             = ''12 mg rd pune_mh''"
    by code_simp
  note t = normalizeAddress_characters [of "''12, M.G. Rd; Pune_MH''" "''12, m.g. rd; pune_mh''"]
  have c: "list_all (\<lambda>c. is_alnum c \<or> c = CHR ''_'' \<or> is_space c)
        (normalizeAddress ''12, M.G. Rd; Pune_MH'')"
    unfolding list_all_iff using t by (rule conjunct1)
  have "strip_nonword ''12, m.g. rd; pune_mh''
          = filter (\<lambda>c. is_alnum c \<or> c = CHR ''_'' \<or> is_space c) ''12, m.g. rd; pune_mh''"
    using t by (rule conjunct2)
  then have d: "strip_nonword ''12, m.g. rd; pune_mh'' = ''12 mg rd pune_mh''"
    by (simp only: b)
  from a c d show ?thesis
    by (intro conjI)
qed

theorem normalizeAddress_underscore_counterexample:
  "normalizeAddress ''a_b'' = ''a_b''
   \<and> CHR ''_'' \<in> set (normalizeAddress ''a_b'')
   \<and> \<not> is_alnum (CHR ''_'') \<and> \<not> is_space (CHR ''_'')"
  by code_simp

section \<open>normalizeAddress: a second application\<close>

subsection \<open>The expansions as a map over tokens\<close>

lemma is_token_Cons: "is_token w \<Longrightarrow> \<exists>c cs. w = c # cs \<and> is_word c"
  by (cases w) (auto simp: is_token_def)

lemma is_token_takeWhile: "is_word c \<Longrightarrow> is_token (takeWhile is_word (c # cs))"
  by (auto simp: is_token_def list_all_iff dest: set_takeWhileD)

lemma nonword_start_dropWhile:
  "dropWhile is_word s = [] \<or> \<not> is_word (hd (dropWhile is_word s))"
  using hd_dropWhile [of is_word s] by blast

lemma map_tokens_token_prefix:
  assumes "is_token w" and "t = [] \<or> \<not> is_word (hd t)"
  shows "map_tokens f (w @ t) = f w @ map_tokens f t"
proof -
  from assms(1) obtain c cs where w: "w = c # cs" and c: "is_word c"
    using is_token_Cons by blast
  have all: "\<forall>x \<in> set w. is_word x"
    using assms(1) by (simp add: is_token_def list_all_iff)
  have t: "takeWhile is_word t = []" "dropWhile is_word t = t"
    using assms(2) by (cases t; simp)+
  have "takeWhile is_word (w @ t) = w" "dropWhile is_word (w @ t) = t"
    using all t by simp_all
  then show ?thesis
    using c by (simp add: w)
qed

lemma map_tokens_nonword_start:
  "t = [] \<or> \<not> is_word (hd t) \<Longrightarrow> map_tokens f t = [] \<or> \<not> is_word (hd (map_tokens f t))"
  by (cases t) auto

lemma map_tokens_unfold_word:
  "is_word c \<Longrightarrow>
   map_tokens f (c # cs) =
     f (takeWhile is_word (c # cs)) @ map_tokens f (dropWhile is_word (c # cs))"
  by simp

lemma map_tokens_compose:
  "token_fun g \<Longrightarrow> map_tokens f (map_tokens g s) = map_tokens (\<lambda>w. f (g w)) s"
proof (induction g s rule: map_tokens.induct)
  case (1 g)
  show ?case by simp
next
  case (2 g c cs)
  show ?case
  proof (cases "is_word c")
    case True
    let ?w = "takeWhile is_word (c # cs)" and ?r = "dropWhile is_word (c # cs)"
    have gw: "is_token (g ?w)"
      using 2(3) True is_token_takeWhile [of c cs] by (simp add: token_fun_def)
    have start: "map_tokens g ?r = [] \<or> \<not> is_word (hd (map_tokens g ?r))"
      by (rule map_tokens_nonword_start) (rule nonword_start_dropWhile)
    have "map_tokens f (map_tokens g (c # cs)) = map_tokens f (g ?w @ map_tokens g ?r)"
      using True by (simp only: map_tokens_unfold_word)
    also have "\<dots> = f (g ?w) @ map_tokens f (map_tokens g ?r)"
      using gw start by (rule map_tokens_token_prefix)
    also have "map_tokens f (map_tokens g ?r) = map_tokens (\<lambda>w. f (g w)) ?r"
      using 2(1) [OF True 2(3)] .
    finally show ?thesis
      using True by (simp only: map_tokens_unfold_word)
  next
    case False
    with 2(2) [OF False 2(3)] show ?thesis by simp
  qed
qed

text \<open>Inside a token the scan of \<open>replace_word\<close> copies the rest of the token.\<close>

lemma replace_word_inside_token:
  assumes pat: "is_token pat"
  shows "replace_word pat rep True s =
           takeWhile is_word s @ replace_word pat rep False (dropWhile is_word s)"
proof (induction s)
  case Nil
  show ?case by simp
next
  case (Cons c cs)
  from pat obtain p ps where p: "pat = p # ps" and pw: "is_word p"
    using is_token_Cons by blast
  show ?case
  proof (cases "is_word c")
    case True
    then have "\<not> matches_at pat True (c # cs)"
      by (simp add: matches_at_def word_boundary_def)
    then show ?thesis
      using True Cons.IH by simp
  next
    case False
    then have "c \<noteq> p" using pw by auto
    then have "\<not> matches_at pat True (c # cs)" "\<not> matches_at pat False (c # cs)"
      by (simp_all add: matches_at_def p)
    then show ?thesis
      using False by simp
  qed
qed

lemma matches_at_token:
  assumes pat: "is_token pat" and c: "is_word c"
  shows "matches_at pat False (c # cs) = (takeWhile is_word (c # cs) = pat)"
proof -
  let ?s = "c # cs"
  have all: "\<forall>x \<in> set pat. is_word x" and ne: "pat \<noteq> []"
    using pat by (simp_all add: is_token_def list_all_iff)
  have lastw: "is_word (last pat)"
    using all ne by simp
  have wb: "word_boundary True r = (r = [] \<or> \<not> is_word (hd r))" for r
    by (cases r) (simp_all add: word_boundary_def)
  show ?thesis
  proof
    assume m: "matches_at pat False ?s"
    then have tk: "take (length pat) ?s = pat"
      and r: "drop (length pat) ?s = [] \<or> \<not> is_word (hd (drop (length pat) ?s))"
      using lastw by (simp_all add: matches_at_def wb)
    have "?s = pat @ drop (length pat) ?s"
      using tk append_take_drop_id [of "length pat" ?s] by simp
    then have "takeWhile is_word ?s = takeWhile is_word (pat @ drop (length pat) ?s)"
      by simp
    also have "\<dots> = pat @ takeWhile is_word (drop (length pat) ?s)"
      using all by simp
    also have "takeWhile is_word (drop (length pat) ?s) = []"
      using r by (simp add: takeWhile_eq_Nil_iff)
    finally show "takeWhile is_word ?s = pat" by simp
  next
    assume t: "takeWhile is_word ?s = pat"
    have tk: "take (length pat) ?s = pat"
      using takeWhile_eq_take [of is_word ?s] t by simp
    have dr: "drop (length pat) ?s = dropWhile is_word ?s"
      using dropWhile_eq_drop [of is_word ?s] t by simp
    have "word_boundary True (drop (length pat) ?s)"
      unfolding dr wb by (rule nonword_start_dropWhile)
    then show "matches_at pat False ?s"
      using tk lastw c by (simp add: matches_at_def word_boundary_def)
  qed
qed

lemma replace_word_map_tokens:
  assumes pat: "is_token pat"
  shows "replace_word pat rep False s = map_tokens (expand_token pat rep) s"
proof (induction "expand_token pat rep" s rule: map_tokens.induct)
  case 1
  show ?case by simp
next
  case (2 c cs)
  show ?case
  proof (cases "is_word c")
    case False
    then have "\<not> matches_at pat False (c # cs)"
      by (simp add: matches_at_def word_boundary_def)
    then show ?thesis
      using False 2(2) by simp
  next
    case True
    let ?w = "takeWhile is_word (c # cs)" and ?r = "dropWhile is_word (c # cs)"
    note IH = 2(1) [OF True]
    have rr: "takeWhile is_word ?r = []" "dropWhile is_word ?r = ?r"
      using nonword_start_dropWhile [of "c # cs"]
      by (simp_all only: takeWhile_eq_Nil_iff dropWhile_idem)
    have inside: "replace_word pat rep True ?r = replace_word pat rep False ?r"
      by (simp only: replace_word_inside_token [OF pat] rr append_Nil)
    show ?thesis
    proof (cases "?w = pat")
      case w: True
      then have m: "matches_at pat False (c # cs)"
        using matches_at_token [OF pat True] by simp
      have "drop (length pat - 1) cs = drop (length pat) (c # cs)"
        using pat by (cases pat) (simp_all add: is_token_def)
      also have "\<dots> = ?r"
        using dropWhile_eq_drop [of is_word "c # cs"] w by simp
      finally have dr: "drop (length pat - 1) cs = ?r" .
      have lastw: "is_word (last pat)"
        using pat by (simp add: is_token_def list_all_iff)
      have "replace_word pat rep False (c # cs) = rep @ replace_word pat rep True ?r"
        using m lastw by (simp only: replace_word.simps dr if_True)
      then show ?thesis
        using True w IH inside by (simp add: expand_token_def)
    next
      case w: False
      then have m: "\<not> matches_at pat False (c # cs)"
        using matches_at_token [OF pat True] by simp
      have "replace_word pat rep False (c # cs) = c # replace_word pat rep True cs"
        using m True by simp
      also have "\<dots> = c # takeWhile is_word cs @ replace_word pat rep False (dropWhile is_word cs)"
        by (simp only: replace_word_inside_token [OF pat])
      finally show ?thesis
        using True w IH by (simp add: expand_token_def)
    qed
  qed
qed

lemma token_fun_expand_token: "is_token rep \<Longrightarrow> token_fun (expand_token pat rep)"
  by (simp add: token_fun_def expand_token_def)

lemma abbreviation_tokens:
  "is_token ''rd''" "is_token ''st''" "is_token ''ave''" "is_token ''mh''" "is_token ''maha''"
  "is_token ''road''" "is_token ''street''" "is_token ''avenue''" "is_token ''maharashtra''"
  by code_simp+

lemma token_fun_expand_compose:
  "is_token rep \<Longrightarrow> token_fun g \<Longrightarrow> token_fun (\<lambda>w. expand_token pat rep (g w))"
  by (simp add: token_fun_def expand_token_def)

lemma replace_word_after_map_tokens:
  "is_token pat \<Longrightarrow> token_fun g \<Longrightarrow>
   replace_word pat rep False (map_tokens g s) = map_tokens (\<lambda>w. expand_token pat rep (g w)) s"
  by (simp only: replace_word_map_tokens map_tokens_compose)

lemma expand_abbreviations_map_tokens: "expand_abbreviations s = map_tokens expand_all s"
proof -
  note tk = abbreviation_tokens
  let ?e1 = "expand_token ''rd'' ''road''"
  let ?e2 = "\<lambda>w. expand_token ''st'' ''street'' (?e1 w)"
  let ?e3 = "\<lambda>w. expand_token ''ave'' ''avenue'' (?e2 w)"
  let ?e4 = "\<lambda>w. expand_token ''mh'' ''maharashtra'' (?e3 w)"
  have f1: "token_fun ?e1" by (rule token_fun_expand_token) (rule tk)
  have f2: "token_fun ?e2" using tk(7) f1 by (rule token_fun_expand_compose)
  have f3: "token_fun ?e3" using tk(8) f2 by (rule token_fun_expand_compose)
  have f4: "token_fun ?e4" using tk(9) f3 by (rule token_fun_expand_compose)
  have "replace_word ''rd'' ''road'' False s = map_tokens ?e1 s"
    using tk(1) by (rule replace_word_map_tokens)
  then show ?thesis
    unfolding expand_abbreviations_def expand_all_def
    by (simp only: replace_word_after_map_tokens [OF tk(2) f1]
        replace_word_after_map_tokens [OF tk(3) f2]
        replace_word_after_map_tokens [OF tk(4) f3]
        replace_word_after_map_tokens [OF tk(5) f4])
qed

lemma expand_all_idem: "expand_all (expand_all w) = expand_all w"
  by (simp add: expand_all_def expand_token_def)

lemma token_fun_expand_all: "token_fun expand_all"
  using abbreviation_tokens by (simp add: token_fun_def expand_all_def expand_token_def)

lemma is_space_not_word: "is_space c \<Longrightarrow> \<not> is_word c"
  by (auto simp: is_space_def is_word_def Let_def)

lemma token_hd_not_space: "is_token w \<Longrightarrow> \<not> is_space (hd w)"
  using is_space_not_word by (cases w) (auto simp: is_token_def)

lemma token_last_not_space: "is_token w \<Longrightarrow> \<not> is_space (last w)"
  using is_space_not_word [of "last w"] by (auto simp: is_token_def list_all_iff)

lemma token_no_space: "is_token w \<Longrightarrow> \<forall>c \<in> set w. \<not> is_space c"
  using is_space_not_word by (auto simp: is_token_def list_all_iff)

lemma dropWhile_space_map_tokens:
  assumes f: "token_fun f"
  shows "dropWhile is_space (map_tokens f s) = map_tokens f (dropWhile is_space s)"
proof (induction s)
  case Nil
  show ?case by simp
next
  case (Cons c cs)
  show ?case
  proof (cases "is_space c")
    case True
    then show ?thesis
      using Cons.IH is_space_not_word [of c] by simp
  next
    case ns: False
    show ?thesis
    proof (cases "is_word c")
      case True
      have "is_token (f (takeWhile is_word (c # cs)))"
        using f True is_token_takeWhile [of c cs] by (simp add: token_fun_def)
      then have "\<not> is_space (hd (f (takeWhile is_word (c # cs))))"
        and "f (takeWhile is_word (c # cs)) \<noteq> []"
        by (simp_all add: token_hd_not_space is_token_def)
      then have "dropWhile is_space (map_tokens f (c # cs)) = map_tokens f (c # cs)"
        using True by (simp add: dropWhile_eq_self_iff)
      then show ?thesis
        using ns by simp
    next
      case False
      then show ?thesis using ns by simp
    qed
  qed
qed

lemma collapse_ws_no_space_prefix:
  "\<forall>c \<in> set u. \<not> is_space c \<Longrightarrow> collapse_ws (u @ t) = u @ collapse_ws t"
  by (induction u) simp_all

lemma collapse_ws_nonword_start:
  "t = [] \<or> \<not> is_word (hd t) \<Longrightarrow> collapse_ws t = [] \<or> \<not> is_word (hd (collapse_ws t))"
proof (cases t)
  case Nil
  then show ?thesis by simp
next
  case (Cons c cs)
  assume "t = [] \<or> \<not> is_word (hd t)"
  moreover have "\<not> is_word (CHR '' '')" by code_simp
  ultimately show ?thesis
    using Cons by simp
qed

lemma collapse_ws_map_tokens:
  assumes f: "token_fun f"
  shows "collapse_ws (map_tokens f s) = map_tokens f (collapse_ws s)"
proof (induction s rule: length_induct)
  case (1 s)
  note IH = 1 [rule_format]
  show ?case
  proof (cases s)
    case Nil
    then show ?thesis by simp
  next
    case (Cons c cs)
    have sp: "\<not> is_word (CHR '' '')" by code_simp
    consider (word) "is_word c" | (space) "is_space c" | (other) "\<not> is_word c" "\<not> is_space c"
      by blast
    then show ?thesis
    proof cases
      case word
      let ?w = "takeWhile is_word (c # cs)" and ?r = "dropWhile is_word (c # cs)"
      have w: "is_token ?w" using word by (rule is_token_takeWhile)
      then have fw: "is_token (f ?w)" using f by (simp add: token_fun_def)
      have len: "length ?r < length s"
        using word by (simp add: Cons less_Suc_eq_le length_dropWhile_le)
      have "collapse_ws (map_tokens f s) = collapse_ws (f ?w @ map_tokens f ?r)"
        using word by (simp only: Cons map_tokens_unfold_word)
      also have "\<dots> = f ?w @ collapse_ws (map_tokens f ?r)"
        using token_no_space [OF fw] by (rule collapse_ws_no_space_prefix)
      also have "collapse_ws (map_tokens f ?r) = map_tokens f (collapse_ws ?r)"
        using IH [OF len] .
      also have "f ?w @ map_tokens f (collapse_ws ?r) = map_tokens f (?w @ collapse_ws ?r)"
        by (rule sym, rule map_tokens_token_prefix [OF w])
           (rule collapse_ws_nonword_start [OF nonword_start_dropWhile])
      also have "?w @ collapse_ws ?r = collapse_ws (?w @ ?r)"
        using token_no_space [OF w] by (simp only: collapse_ws_no_space_prefix)
      finally show ?thesis
        by (simp only: takeWhile_dropWhile_id Cons)
    next
      case space
      then have nw: "\<not> is_word c" by (rule is_space_not_word)
      have len: "length (dropWhile is_space cs) < length s"
        by (simp add: Cons less_Suc_eq_le length_dropWhile_le)
      show ?thesis
        using space nw sp IH [OF len]
        by (simp add: Cons dropWhile_space_map_tokens [OF f])
    next
      case other
      have len: "length cs < length s" by (simp add: Cons)
      show ?thesis
        using other IH [OF len] by (simp add: Cons)
    qed
  qed
qed

subsection \<open>Trimming and collapsing commute with a map over tokens\<close>

lemma map_tokens_append_nonword:
  "\<not> is_word x \<Longrightarrow> map_tokens f (a @ x # t) = map_tokens f a @ x # map_tokens f t"
proof (induction f a rule: map_tokens.induct)
  case (1 f)
  then show ?case by simp
next
  case (2 f c cs)
  show ?case
  proof (cases "is_word c")
    case True
    have tk: "takeWhile is_word ((c # cs) @ x # t) = takeWhile is_word (c # cs)"
      using 2(3) by (rule takeWhile_tail)
    have dr: "dropWhile is_word ((c # cs) @ x # t) = dropWhile is_word (c # cs) @ x # t"
      using 2(3) by (rule dropWhile_append3)
    have "map_tokens f ((c # cs) @ x # t)
            = f (takeWhile is_word ((c # cs) @ x # t))
              @ map_tokens f (dropWhile is_word ((c # cs) @ x # t))"
      using True by (simp only: append_Cons map_tokens_unfold_word)
    also have "\<dots> = f (takeWhile is_word (c # cs))
              @ map_tokens f (dropWhile is_word (c # cs)) @ x # map_tokens f t"
      using 2(1) [OF True 2(3)] by (simp only: tk dr)
    finally show ?thesis
      using True by (simp only: map_tokens_unfold_word append_assoc)
  next
    case False
    with 2(2) [OF False 2(3)] show ?thesis by simp
  qed
qed

lemma map_tokens_last_not_space:
  "token_fun f \<Longrightarrow> s \<noteq> [] \<Longrightarrow> \<not> is_space (last s) \<Longrightarrow>
   map_tokens f s \<noteq> [] \<and> \<not> is_space (last (map_tokens f s))"
proof (induction f s rule: map_tokens.induct)
  case (1 f)
  then show ?case by simp
next
  case (2 f c cs)
  show ?case
  proof (cases "is_word c")
    case True
    let ?w = "takeWhile is_word (c # cs)" and ?r = "dropWhile is_word (c # cs)"
    have fw: "is_token (f ?w)"
      using 2(3) True is_token_takeWhile [of c cs] by (simp add: token_fun_def)
    have unf: "map_tokens f (c # cs) = f ?w @ map_tokens f ?r"
      using True by (rule map_tokens_unfold_word)
    show ?thesis
    proof (cases "?r = []")
      case r: True
      have eq: "map_tokens f (c # cs) = f ?w"
        by (simp only: unf r map_tokens.simps(1) append_Nil2)
      have ne: "f ?w \<noteq> []"
        using fw unfolding is_token_def by (rule conjunct1)
      show ?thesis
        unfolding eq using ne token_last_not_space [OF fw] by (rule conjI)
    next
      case r: False
      have "last (c # cs) = last (?w @ ?r)" by (simp only: takeWhile_dropWhile_id)
      also have "\<dots> = last ?r" using r by (rule last_appendR)
      finally have "last (c # cs) = last ?r" .
      then have "\<not> is_space (last ?r)" using 2(5) by simp
      from 2(1) [OF True 2(3) r this] show ?thesis
        by (simp only: unf) simp
    qed
  next
    case False
    show ?thesis
    proof (cases "cs = []")
      case True
      then show ?thesis using False 2(5) by simp
    next
      case cs: False
      then have "\<not> is_space (last cs)" using 2(5) by simp
      from 2(2) [OF False 2(3) cs this] show ?thesis
        using False by simp
    qed
  qed
qed

lemma rtrim_snoc:
  "rev (dropWhile is_space (rev (xs @ [x]))) =
     (if is_space x then rev (dropWhile is_space (rev xs)) else xs @ [x])"
  by simp

lemma rtrim_fixed:
  "s \<noteq> [] \<Longrightarrow> \<not> is_space (last s) \<Longrightarrow> rev (dropWhile is_space (rev s)) = s"
  by (cases s rule: rev_cases) simp_all

lemma rtrim_map_tokens:
  assumes f: "token_fun f"
  shows "rev (dropWhile is_space (rev (map_tokens f s)))
           = map_tokens f (rev (dropWhile is_space (rev s)))"
proof (induction s rule: rev_induct)
  case Nil
  show ?case by simp
next
  case (snoc x xs)
  show ?case
  proof (cases "is_space x")
    case True
    then have nw: "\<not> is_word x" by (rule is_space_not_word)
    have "map_tokens f (xs @ [x]) = map_tokens f xs @ [x]"
      using map_tokens_append_nonword [OF nw, of f xs "[]"] by simp
    then show ?thesis
      using True snoc.IH by simp
  next
    case False
    have "map_tokens f (xs @ [x]) \<noteq> [] \<and> \<not> is_space (last (map_tokens f (xs @ [x])))"
      using f False by (intro map_tokens_last_not_space) simp_all
    then have "rev (dropWhile is_space (rev (map_tokens f (xs @ [x])))) = map_tokens f (xs @ [x])"
      using rtrim_fixed by blast
    then show ?thesis
      using False by (simp only: rtrim_snoc if_False)
  qed
qed

lemma trim_map_tokens: "token_fun f \<Longrightarrow> trim (map_tokens f s) = map_tokens f (trim s)"
  by (simp only: trim_def dropWhile_space_map_tokens rtrim_map_tokens)

subsection \<open>Trimmed strings\<close>

lemma rtrim_hd:
  "a = [] \<or> \<not> is_space (hd a) \<Longrightarrow>
   rev (dropWhile is_space (rev a)) = [] \<or> \<not> is_space (hd (rev (dropWhile is_space (rev a))))"
proof (induction a rule: rev_induct)
  case Nil
  show ?case by simp
next
  case (snoc x xs)
  show ?case
  proof (cases "is_space x")
    case True
    have "xs = [] \<or> \<not> is_space (hd xs)"
      using snoc.prems by (cases xs) simp_all
    from snoc.IH [OF this] show ?thesis
      using True by simp
  next
    case False
    then show ?thesis
      using snoc.prems by simp
  qed
qed

lemma trimmed_trim: "trimmed (trim s)"
proof -
  let ?a = "dropWhile is_space s"
  let ?b = "rev (dropWhile is_space (rev ?a))"
  have a: "?a = [] \<or> \<not> is_space (hd ?a)"
    using hd_dropWhile [of is_space s] by blast
  have h: "?b = [] \<or> \<not> is_space (hd ?b)"
    using a by (rule rtrim_hd)
  have l: "?b \<noteq> [] \<Longrightarrow> \<not> is_space (last ?b)"
    using hd_dropWhile [of is_space "rev ?a"] by (simp add: last_rev)
  show ?thesis
    unfolding trimmed_def trim_def using h l by blast
qed

lemma trim_trimmed: "trimmed s \<Longrightarrow> trim s = s"
proof (cases "s = []")
  case True
  then show ?thesis by (simp add: trim_def)
next
  case False
  assume "trimmed s"
  with False have h: "\<not> is_space (hd s)" and l: "\<not> is_space (last s)"
    by (simp_all add: trimmed_def)
  have "dropWhile is_space s = s"
    using h by (simp add: dropWhile_eq_self_iff)
  then show ?thesis
    using rtrim_fixed [OF False l] by (simp add: trim_def)
qed

lemma collapse_ws_nonspace_start:
  "t = [] \<or> \<not> is_space (hd t) \<Longrightarrow> collapse_ws t = [] \<or> \<not> is_space (hd (collapse_ws t))"
  by (cases t) auto

lemma collapse_ws_last:
  "s \<noteq> [] \<Longrightarrow> \<not> is_space (last s) \<Longrightarrow>
   collapse_ws s \<noteq> [] \<and> \<not> is_space (last (collapse_ws s))"
proof (induction s rule: length_induct)
  case (1 s)
  note IH = 1(1) [rule_format]
  from 1(2) obtain c cs where s: "s = c # cs" by (cases s) auto
  show ?case
  proof (cases "is_space c")
    case True
    with 1(3) s have cs: "cs \<noteq> []" by auto
    then have lcs: "\<not> is_space (last cs)" using 1(3) s by simp
    let ?d = "dropWhile is_space cs"
    have mem: "last cs \<in> set cs" using cs by simp
    have d: "?d \<noteq> []" using mem lcs by auto
    have ld: "last ?d = last cs" using mem lcs by (rule dropWhile_last)
    have len: "length ?d < length s" by (simp add: s less_Suc_eq_le length_dropWhile_le)
    from IH [OF len d] ld lcs
    have "collapse_ws ?d \<noteq> [] \<and> \<not> is_space (last (collapse_ws ?d))" by simp
    then show ?thesis
      using True by (simp add: s)
  next
    case False
    show ?thesis
    proof (cases "cs = []")
      case True
      then show ?thesis using False by (simp add: s)
    next
      case cs: False
      then have "\<not> is_space (last cs)" using 1(3) s by simp
      from IH [of cs, OF _ cs this] show ?thesis
        using False by (simp add: s)
    qed
  qed
qed

lemma trimmed_collapse_ws: "trimmed s \<Longrightarrow> trimmed (collapse_ws s)"
proof (cases "s = []")
  case True
  then show ?thesis by (simp add: trimmed_def)
next
  case False
  assume "trimmed s"
  with False have h: "\<not> is_space (hd s)" and l: "\<not> is_space (last s)"
    by (simp_all add: trimmed_def)
  have "collapse_ws s = [] \<or> \<not> is_space (hd (collapse_ws s))"
    using h by (intro collapse_ws_nonspace_start) simp
  moreover have "collapse_ws s \<noteq> [] \<and> \<not> is_space (last (collapse_ws s))"
    using False l by (rule collapse_ws_last)
  ultimately show ?thesis
    by (simp add: trimmed_def)
qed

lemma collapse_ws_idem: "collapse_ws (collapse_ws s) = collapse_ws s"
proof (induction s rule: length_induct)
  case (1 s)
  note IH = 1 [rule_format]
  show ?case
  proof (cases s)
    case Nil
    then show ?thesis by simp
  next
    case (Cons c cs)
    show ?thesis
    proof (cases "is_space c")
      case True
      let ?d = "dropWhile is_space cs"
      have sp: "is_space (CHR '' '')" by code_simp
      have len: "length ?d < length s"
        by (simp add: Cons less_Suc_eq_le length_dropWhile_le)
      have "?d = [] \<or> \<not> is_space (hd ?d)"
        using hd_dropWhile [of is_space cs] by blast
      then have "collapse_ws ?d = [] \<or> \<not> is_space (hd (collapse_ws ?d))"
        by (rule collapse_ws_nonspace_start)
      then have "dropWhile is_space (collapse_ws ?d) = collapse_ws ?d"
        by (simp add: dropWhile_eq_self_iff)
      then show ?thesis
        using True sp IH [OF len] by (simp add: Cons)
    next
      case False
      have len: "length cs < length s" by (simp add: Cons)
      show ?thesis
        using False IH [OF len] by (simp add: Cons)
    qed
  qed
qed

lemma collapse_trim_idem:
  "collapse_ws (trim (collapse_ws (trim s))) = collapse_ws (trim s)"
  by (simp add: trim_trimmed trimmed_collapse_ws trimmed_trim collapse_ws_idem)

lemma trim_idem: "trim (trim s) = trim s"
  by (simp add: trim_trimmed trimmed_trim)

subsection \<open>The second application\<close>

lemma toLowerCase_char_idem: "toLowerCase_char (toLowerCase_char c) = toLowerCase_char c"
proof -
  have "of_char (char_of (of_char c + 32 :: nat)) = (of_char c + 32 :: nat)" if "of_char c \<le> (222::nat)"
    using that by (simp add: of_char_of)
  then show ?thesis
    by (auto simp: toLowerCase_char_def Let_def)
qed

lemma toLowerCase_idem: "toLowerCase (toLowerCase s) = toLowerCase s"
  by (simp add: toLowerCase_def toLowerCase_char_idem)

lemma strip_nonword_idem: "strip_nonword (strip_nonword s) = strip_nonword s"
  by (simp add: strip_nonword_def)

lemma set_trim: "set (trim s) \<subseteq> set s"
proof
  fix c assume "c \<in> set (trim s)"
  then have "c \<in> set (dropWhile is_space (rev (dropWhile is_space s)))"
    by (simp add: trim_def)
  then have "c \<in> set (rev (dropWhile is_space s))" by (rule set_dropWhileD)
  then have "c \<in> set (dropWhile is_space s)" by simp
  then show "c \<in> set s" by (rule set_dropWhileD)
qed

lemma set_collapse_ws: "set (collapse_ws s) \<subseteq> insert (CHR '' '') {c \<in> set s. \<not> is_space c}"
proof (induction s rule: collapse_ws.induct)
  case 1
  show ?case by simp
next
  case (2 c cs)
  show ?case
  proof (cases "is_space c")
    case True
    have "set (dropWhile is_space cs) \<subseteq> set cs"
      by (auto dest: set_dropWhileD)
    with 2(1) [OF True] True show ?thesis by auto
  next
    case False
    with 2(2) [OF False] show ?thesis by auto
  qed
qed

text \<open>
  The characters of a result of the pipeline: lower-case word characters and the space.
\<close>

lemma space_char: "is_space (CHR '' '')" "toLowerCase_char (CHR '' '') = CHR '' ''"
  by code_simp+

lemma pipeline_chars:
  assumes "c \<in> set (strip_nonword (collapse_ws (trim (toLowerCase x))))"
  shows "(is_word c \<or> c = CHR '' '') \<and> toLowerCase_char c = c"
proof (cases "c = CHR '' ''")
  case True
  then show ?thesis by (simp add: space_char)
next
  case False
  from assms have ws: "is_word c \<or> is_space c"
    and mem: "c \<in> set (collapse_ws (trim (toLowerCase x)))"
    by (simp_all add: strip_nonword_def)
  from mem set_collapse_ws False
  have ns: "\<not> is_space c" and "c \<in> set (trim (toLowerCase x))" by blast+
  then have "c \<in> set (toLowerCase x)" using set_trim by blast
  then have "toLowerCase_char c = c"
    by (auto simp: toLowerCase_def toLowerCase_char_idem)
  with ws ns show ?thesis by simp
qed

lemma normalizeAddress_chars:
  assumes "c \<in> set (normalizeAddress x)"
  shows "(is_word c \<or> c = CHR '' '') \<and> toLowerCase_char c = c"
proof -
  from assms set_expand_abbreviations
  have "c \<in> set (strip_nonword (collapse_ws (trim (toLowerCase x))))
        \<or> c \<in> set ''road'' \<union> set ''street'' \<union> set ''avenue'' \<union> set ''maharashtra''"
    unfolding normalizeAddress_expand by blast
  then show ?thesis
    using pipeline_chars replacement_letters by blast
qed

lemma toLowerCase_normalized: "toLowerCase (normalizeAddress x) = normalizeAddress x"
  unfolding toLowerCase_def using normalizeAddress_chars by (intro map_idI) blast

lemma strip_nonword_clean:
  assumes "\<forall>c \<in> set s. is_word c \<or> c = CHR '' ''"
  shows "strip_nonword (collapse_ws (trim s)) = collapse_ws (trim s)"
proof -
  have "is_word c \<or> is_space c" if "c \<in> set (collapse_ws (trim s))" for c
  proof -
    from that set_collapse_ws have "c = CHR '' '' \<or> c \<in> set (trim s)" by blast
    then show ?thesis
      using set_trim assms space_char(1) by blast
  qed
  then show ?thesis
    by (simp add: strip_nonword_def)
qed

lemma expand_abbreviations_idem:
  "expand_abbreviations (expand_abbreviations s) = expand_abbreviations s"
  by (simp add: expand_abbreviations_map_tokens map_tokens_compose token_fun_expand_all
      expand_all_idem)

lemma normalizeAddress_twice:
  "normalizeAddress (normalizeAddress x) = collapse_ws (trim (normalizeAddress x))"
proof -
  let ?s0 = "strip_nonword (collapse_ws (trim (toLowerCase x)))"
  let ?y = "normalizeAddress x"
  have y: "?y = map_tokens expand_all ?s0"
    by (simp only: normalizeAddress_expand expand_abbreviations_map_tokens)
  have clean: "\<forall>c \<in> set ?y. is_word c \<or> c = CHR '' ''"
    using normalizeAddress_chars by blast
  have "normalizeAddress ?y
          = expand_abbreviations (strip_nonword (collapse_ws (trim (toLowerCase ?y))))"
    by (rule normalizeAddress_expand)
  also have "\<dots> = expand_abbreviations (collapse_ws (trim ?y))"
    by (simp only: toLowerCase_normalized strip_nonword_clean [OF clean])
  also have "\<dots> = map_tokens expand_all (collapse_ws (trim (map_tokens expand_all ?s0)))"
    by (simp only: expand_abbreviations_map_tokens y)
  also have "\<dots> = map_tokens expand_all (map_tokens expand_all (collapse_ws (trim ?s0)))"
    by (simp only: trim_map_tokens [OF token_fun_expand_all]
        collapse_ws_map_tokens [OF token_fun_expand_all])
  also have "\<dots> = map_tokens expand_all (collapse_ws (trim ?s0))"
    by (simp only: map_tokens_compose [OF token_fun_expand_all] expand_all_idem)
  also have "\<dots> = collapse_ws (trim (map_tokens expand_all ?s0))"
    by (simp only: trim_map_tokens [OF token_fun_expand_all]
        collapse_ws_map_tokens [OF token_fun_expand_all])
  finally show ?thesis
    by (simp only: y)
qed

lemma normalizeAddress_thrice:
  "normalizeAddress (normalizeAddress (normalizeAddress x)) = normalizeAddress (normalizeAddress x)"
proof -
  have "normalizeAddress (normalizeAddress (normalizeAddress x))
          = collapse_ws (trim (normalizeAddress (normalizeAddress x)))"
    by (rule normalizeAddress_twice)
  also have "\<dots> = collapse_ws (trim (collapse_ws (trim (normalizeAddress x))))"
    by (simp only: normalizeAddress_twice [of x])
  also have "\<dots> = collapse_ws (trim (normalizeAddress x))"
    by (rule collapse_trim_idem)
  also have "\<dots> = normalizeAddress (normalizeAddress x)"
    by (simp only: normalizeAddress_twice [of x])
  finally show ?thesis .
qed

lemma normalizeAddress_idem_no_punctuation:
  assumes "\<forall>c \<in> set x. is_word c \<or> is_space c"
  shows "normalizeAddress (normalizeAddress x) = normalizeAddress x"
proof -
  let ?l = "toLowerCase x"
  have "is_word c \<or> is_space c" if "c \<in> set (collapse_ws (trim ?l))" for c
  proof -
    from that set_collapse_ws have "c = CHR '' '' \<or> c \<in> set (trim ?l)" by blast
    then show ?thesis
    proof
      assume "c = CHR '' ''" then show ?thesis by (simp add: space_char)
    next
      assume "c \<in> set (trim ?l)"
      then have "c \<in> set ?l" using set_trim by blast
      then obtain d where d: "d \<in> set x" and c: "c = toLowerCase_char d"
        by (auto simp: toLowerCase_def)
      from assms d have "is_word d \<or> is_space d" by blast
      then show ?thesis
        unfolding c by (auto simp: toLowerCase_char_def is_word_def is_space_def Let_def of_char_of)
    qed
  qed
  then have s0: "strip_nonword (collapse_ws (trim ?l)) = collapse_ws (trim ?l)"
    by (simp add: strip_nonword_def)
  have y: "normalizeAddress x = map_tokens expand_all (collapse_ws (trim ?l))"
    by (simp only: normalizeAddress_expand expand_abbreviations_map_tokens s0)
  have "collapse_ws (trim (normalizeAddress x))
          = map_tokens expand_all (collapse_ws (trim (collapse_ws (trim ?l))))"
    by (simp only: y trim_map_tokens [OF token_fun_expand_all]
        collapse_ws_map_tokens [OF token_fun_expand_all])
  also have "\<dots> = normalizeAddress x"
    by (simp only: collapse_trim_idem y)
  finally show ?thesis
    by (simp only: normalizeAddress_twice)
qed

text \<open>
  Claim C4, as amended. A second application of \<open>normalizeAddress\<close> only trims the
  result of the first and collapses its runs of spaces: step 4 runs after steps 2 and 3
  and can leave leading, trailing or doubled spaces. So the normalizer is idempotent from
  its second application on, and it is idempotent on every input that consists of word
  characters and whitespace only. No expansion introduces a whole-word occurrence of an
  abbreviation (the expansion step is idempotent), and each of the steps lowercase, trim,
  collapse and strip is idempotent on its own.
\<close>

theorem normalizeAddress_second_application:
  "normalizeAddress (normalizeAddress x) = collapse_ws (trim (normalizeAddress x))
   \<and> normalizeAddress (normalizeAddress (normalizeAddress x))
       = normalizeAddress (normalizeAddress x)
   \<and> ((\<forall>c \<in> set x. is_word c \<or> is_space c) \<longrightarrow>
        normalizeAddress (normalizeAddress x) = normalizeAddress x)
   \<and> expand_abbreviations (expand_abbreviations s) = expand_abbreviations s
   \<and> toLowerCase (toLowerCase s) = toLowerCase s
   \<and> trim (trim s) = trim s
   \<and> collapse_ws (collapse_ws s) = collapse_ws s
   \<and> strip_nonword (strip_nonword s) = strip_nonword s"
  using normalizeAddress_twice [of x] normalizeAddress_thrice [of x]
    normalizeAddress_idem_no_punctuation [of x] expand_abbreviations_idem [of s]
    toLowerCase_idem [of s] trim_idem [of s] collapse_ws_idem [of s] strip_nonword_idem [of s]
  by blast

theorem normalizeAddress_second_application_witness:
  "list_all (\<lambda>c. is_word c \<or> is_space c) ''12  MG Rd Pune MH ''
   \<and> normalizeAddress ''12  MG Rd Pune MH '' = ''12 mg road pune maharashtra''
   \<and> normalizeAddress (normalizeAddress ''12  MG Rd Pune MH '')
       = normalizeAddress ''12  MG Rd Pune MH ''
   \<and> normalizeAddress (normalizeAddress ''a , b'') = collapse_ws (trim (normalizeAddress ''a , b''))"
proof -
  have h: "list_all (\<lambda>c. is_word c \<or> is_space c) ''12  MG Rd Pune MH ''"
    by code_simp
  have v: "normalizeAddress ''12  MG Rd Pune MH '' = ''12 mg road pune maharashtra''"
    by code_simp
  note t = normalizeAddress_second_application [of "''12  MG Rd Pune MH ''" "[]"]
  have "\<forall>c \<in> set ''12  MG Rd Pune MH ''. is_word c \<or> is_space c"
    using h unfolding list_all_iff .
  with t have i: "normalizeAddress (normalizeAddress ''12  MG Rd Pune MH '')
       = normalizeAddress ''12  MG Rd Pune MH ''"
    by blast
  have u: "normalizeAddress (normalizeAddress ''a , b'') = collapse_ws (trim (normalizeAddress ''a , b''))"
    using normalizeAddress_second_application [of "''a , b''" "[]"] by (rule conjunct1)
  from h v i u show ?thesis
    by (intro conjI)
qed

theorem normalizeAddress_idempotence_counterexample:
  "normalizeAddress ''a , b'' = ''a  b''
   \<and> normalizeAddress (normalizeAddress ''a , b'') = ''a b''
   \<and> normalizeAddress (normalizeAddress ''a , b'') \<noteq> normalizeAddress ''a , b''"
  by code_simp

end
